theory Spec2Isabelle
  imports Complex_Main "HOL-Library.AList"
begin

section \<open>Text and the library functions the program calls\<close>

text \<open>
  A Python \<^verbatim>\<open>str\<close> is a sequence of Unicode code points, so a text is a list of
  natural numbers. The patterns of \<^verbatim>\<open>clean_pdf_text\<close> range over Cyrillic letters,
  which a list of bytes would split in two. \<open>str\<close> reads an ASCII literal as such a text.
\<close>

type_synonym ustr = "nat list"

definition str :: "string \<Rightarrow> ustr" where
  "str s = map of_char s"

text \<open>
  \<^verbatim>\<open>str.isspace\<close> on one character, which is also what \<^verbatim>\<open>\s\<close> matches in a
  pattern over \<^verbatim>\<open>str\<close> and what \<^verbatim>\<open>str.strip()\<close> removes.
\<close>

definition isspace :: "nat \<Rightarrow> bool" where
  "isspace c \<longleftrightarrow>
     (9 \<le> c \<and> c \<le> 13) \<or> (28 \<le> c \<and> c \<le> 32) \<or> c = 133 \<or> c = 160 \<or> c = 5760 \<or>
     (8192 \<le> c \<and> c \<le> 8202) \<or> c = 8232 \<or> c = 8233 \<or> c = 8239 \<or> c = 8287 \<or> c = 12288"

definition lstrip :: "ustr \<Rightarrow> ustr" where
  "lstrip s = dropWhile isspace s"

definition rstrip :: "ustr \<Rightarrow> ustr" where
  "rstrip s = rev (dropWhile isspace (rev s))"

definition strip :: "ustr \<Rightarrow> ustr" where
  "strip s = rstrip (lstrip s)"

subsection \<open>Regular expressions: the fragment of \<^verbatim>\<open>re\<close> the program uses\<close>

text \<open>
  The program's patterns are built from literal text, character sets (with ranges,
  \<^verbatim>\<open>\s\<close> and negation), greedy \<^verbatim>\<open>*\<close> and \<^verbatim>\<open>+\<close> over one character set,
  a greedy optional group, alternation, numbered capture groups and one-character negative
  look-behind and look-ahead. The matcher below is a backtracking matcher as \<^verbatim>\<open>re\<close>
  is: it tries the alternatives in the order of the pattern, the longest repetition first,
  and the first way to match the whole pattern wins.
\<close>

datatype item = Ch nat | Rng nat nat | Space

fun in_item :: "nat \<Rightarrow> item \<Rightarrow> bool" where
  "in_item c (Ch d) = (c = d)"
| "in_item c (Rng a b) = (a \<le> c \<and> c \<le> b)"
| "in_item c Space = isspace c"

datatype cset = Pos "item list" | Neg "item list"

fun in_cset :: "nat \<Rightarrow> cset \<Rightarrow> bool" where
  "in_cset c (Pos its) = list_ex (in_item c) its"
| "in_cset c (Neg its) = (\<not> list_ex (in_item c) its)"

datatype regex =
    Eps
  | One cset
  | Lit ustr
  | Seq regex regex
  | Alt regex regex
  | Star cset
  | Plus cset
  | Opt regex
  | Grp nat regex
  | NotBehind cset
  | NotAhead cset

text \<open>A pattern that can match the empty text.\<close>

fun nullable :: "regex \<Rightarrow> bool" where
  "nullable Eps = True"
| "nullable (One cs) = False"
| "nullable (Lit s) = (s = [])"
| "nullable (Seq a b) = (nullable a \<and> nullable b)"
| "nullable (Alt a b) = (nullable a \<or> nullable b)"
| "nullable (Star cs) = True"
| "nullable (Plus cs) = False"
| "nullable (Opt a) = True"
| "nullable (Grp n a) = nullable a"
| "nullable (NotBehind cs) = True"
| "nullable (NotAhead cs) = True"

definition cat :: "regex list \<Rightarrow> regex" where
  "cat rs = foldr Seq rs Eps"

text \<open>
  The matcher runs on a position in the text: the characters before it (nearest first)
  and the characters from it on. \<open>groups\<close> holds what each capture group matched.
  The continuation \<open>k\<close> is the rest of the pattern; \<open>None\<close> makes the matcher backtrack.
\<close>

type_synonym groups = "nat \<rightharpoonup> ustr"

fun star :: "cset \<Rightarrow> ustr \<Rightarrow> ustr \<Rightarrow> (ustr \<Rightarrow> ustr \<Rightarrow> 'a option) \<Rightarrow> 'a option" where
  "star cs l [] k = k l []"
| "star cs l (c # r) k =
     (if in_cset c cs
      then (case star cs (c # l) r k of Some x \<Rightarrow> Some x | None \<Rightarrow> k l (c # r))
      else k l (c # r))"

fun matches :: "regex \<Rightarrow> ustr \<Rightarrow> ustr \<Rightarrow> groups \<Rightarrow>
    (ustr \<Rightarrow> ustr \<Rightarrow> groups \<Rightarrow> 'a option) \<Rightarrow> 'a option" where
  "matches Eps l r g k = k l r g"
| "matches (One cs) l r g k =
     (case r of [] \<Rightarrow> None | c # r' \<Rightarrow> if in_cset c cs then k (c # l) r' g else None)"
| "matches (Lit s) l r g k =
     (if take (length s) r = s then k (rev s @ l) (drop (length s) r) g else None)"
| "matches (Seq a b) l r g k = matches a l r g (\<lambda>l' r' g'. matches b l' r' g' k)"
| "matches (Alt a b) l r g k =
     (case matches a l r g k of Some x \<Rightarrow> Some x | None \<Rightarrow> matches b l r g k)"
| "matches (Star cs) l r g k = star cs l r (\<lambda>l' r'. k l' r' g)"
| "matches (Plus cs) l r g k =
     (case r of [] \<Rightarrow> None
      | c # r' \<Rightarrow> if in_cset c cs then star cs (c # l) r' (\<lambda>l' r'. k l' r' g) else None)"
| "matches (Opt a) l r g k =
     (case matches a l r g k of Some x \<Rightarrow> Some x | None \<Rightarrow> k l r g)"
| "matches (Grp n a) l r g k =
     matches a l r g (\<lambda>l' r' g'. k l' r' (g'(n \<mapsto> rev (take (length l' - length l) l'))))"
| "matches (NotBehind cs) l r g k =
     (case l of [] \<Rightarrow> k l r g | c # _ \<Rightarrow> if in_cset c cs then None else k l r g)"
| "matches (NotAhead cs) l r g k =
     (case r of [] \<Rightarrow> k l r g | c # _ \<Rightarrow> if in_cset c cs then None else k l r g)"

text \<open>A match of the pattern that starts at the position: where it ends, and its groups.\<close>

definition match_at :: "regex \<Rightarrow> ustr \<Rightarrow> ustr \<Rightarrow> (ustr \<times> ustr \<times> groups) option" where
  "match_at re l r = matches re l r Map.empty (\<lambda>l' r' g. Some (l', r', g))"

text \<open>
  \<^verbatim>\<open>re.search\<close>: the match at the leftmost position that has one. The program only reads
  the groups of the match.
\<close>

fun search_from :: "regex \<Rightarrow> ustr \<Rightarrow> ustr \<Rightarrow> groups option" where
  "search_from re l [] = map_option (\<lambda>(l', r', g). g) (match_at re l [])"
| "search_from re l (c # r) =
     (case match_at re l (c # r) of
        Some (l', r', g) \<Rightarrow> Some g
      | None \<Rightarrow> search_from re (c # l) r)"

definition re_search :: "regex \<Rightarrow> ustr \<Rightarrow> groups option" where
  "re_search re s = search_from re [] s"

text \<open>
  \<^verbatim>\<open>re.sub\<close>: from left to right, each leftmost match is replaced and the scan goes on
  after it. Look-behind sees the original text, so the characters passed are kept in \<open>l\<close>.
  Every pattern of the program consumes at least one character, so a match is never
  empty; the test on the length is what makes the scan advance.
\<close>

function sub_from :: "regex \<Rightarrow> (groups \<Rightarrow> ustr) \<Rightarrow> ustr \<Rightarrow> ustr \<Rightarrow> ustr" where
  "sub_from re repl l [] = []"
| "sub_from re repl l (c # r) =
     (case match_at re l (c # r) of
        None \<Rightarrow> c # sub_from re repl (c # l) r
      | Some (l', r', g) \<Rightarrow>
          if length r' < length (c # r) then repl g @ sub_from re repl l' r'
          else c # sub_from re repl (c # l) r)"
  by pat_completeness auto
termination
  by (relation "measure (\<lambda>(re, repl, l, r). length r)") auto

definition re_sub :: "regex \<Rightarrow> (groups \<Rightarrow> ustr) \<Rightarrow> ustr \<Rightarrow> ustr" where
  "re_sub re repl s = sub_from re repl [] s"

text \<open>A group in a replacement template: \<^verbatim>\<open>\1\<close> is what group 1 matched.\<close>

definition grp :: "groups \<Rightarrow> nat \<Rightarrow> ustr" where
  "grp g n = (case g n of None \<Rightarrow> [] | Some s \<Rightarrow> s)"

abbreviation ws :: cset where
  "ws \<equiv> Pos [Space]"

section \<open>TextCleaner\<close>

text \<open>
  The character set of the first pattern, the Cyrillic letters, in code points:
  U+0430..U+044F, U+0410..U+042F, U+0401 and U+0451. The literal patterns that follow are
  the split words of the source, letter by letter, with 32 for the space.
\<close>

definition cyrillic :: cset where
  "cyrillic = Pos [Rng 0x430 0x44F, Rng 0x410 0x42F, Ch 0x401, Ch 0x451]"

definition clean_pdf_text :: "ustr \<Rightarrow> ustr" where
  "clean_pdf_text text0 =
    (let text = re_sub (cat [Grp 1 (One cyrillic), Plus ws, Grp 2 (One cyrillic)])
                  (\<lambda>g. grp g 1 @ grp g 2) text0;
         text = re_sub (cat [Plus ws, Grp 1 (One (Pos [Ch 44, Ch 46, Ch 59, Ch 58]))])
                  (\<lambda>g. grp g 1) text;
         text = re_sub (cat [NotBehind (Pos [Rng 48 57]), Lit [0x43E, 32, 0x442],
                             NotAhead (Pos [Rng 48 57])])
                  (\<lambda>g. [0x43E, 0x442]) text;
         text = re_sub (Lit [0x440, 32, 0x443, 0x431]) (\<lambda>g. [0x440, 0x443, 0x431]) text;
         text = re_sub (Lit [0x44D, 32, 0x43B, 0x435, 0x43A, 0x442, 0x440])
                  (\<lambda>g. [0x44D, 0x43B, 0x435, 0x43A, 0x442, 0x440]) text;
         text = re_sub (Lit [0x44D, 32, 0x43D, 0x435, 0x440, 0x433])
                  (\<lambda>g. [0x44D, 0x43D, 0x435, 0x440, 0x433]) text;
         text = re_sub (Lit [0x441, 0x447, 32, 0x451, 32, 0x442])
                  (\<lambda>g. [0x441, 0x447, 0x451, 0x442]) text;
         text = re_sub (Lit [0x43E, 32, 0x441, 0x43D, 0x430, 0x431])
                  (\<lambda>g. [0x43E, 0x441, 0x43D, 0x430, 0x431]) text;
         text = re_sub (cat [Lit [32], Plus (Pos [Ch 32])]) (\<lambda>g. [32]) text
     in strip text)"

section \<open>JSON values and the decoder\<close>

text \<open>
  What \<^verbatim>\<open>json.loads\<close> returns: \<^verbatim>\<open>None\<close>, a bool, an int, a float, a str, a list
  or a dict. A dict keeps its keys in insertion order, each once, so it is an association
  list that \<open>AList.update\<close> writes to. Floats are idealised as rationals: rounding,
  overflow and the values NaN and infinity are outside this model, and so are the literals
  \<^verbatim>\<open>NaN\<close>, \<^verbatim>\<open>Infinity\<close> and \<^verbatim>\<open>-Infinity\<close> that the decoder accepts beyond JSON.
  The interpreter's resource limits (recursion depth, the digit limit of int conversion)
  are outside the model as well: a text is valid JSON and decoded, or the decoder raises
  \<^verbatim>\<open>JSONDecodeError\<close>.
\<close>

datatype json =
    JNull
  | JBool bool
  | JInt int
  | JFloat rat
  | JStr ustr
  | JArr "json list"
  | JObj "(ustr \<times> json) list"

type_synonym dict = "(ustr \<times> json) list"

datatype error =
    JSONDecodeError
  | ValueError
  | TypeError
  | AttributeError
  | RequestTimeout
  | RequestFailed
  | CompletionExhausted

definition json_ws :: "nat \<Rightarrow> bool" where
  "json_ws c \<longleftrightarrow> c = 32 \<or> c = 9 \<or> c = 10 \<or> c = 13"

definition skip_ws :: "ustr \<Rightarrow> ustr" where
  "skip_ws s = dropWhile json_ws s"

definition is_digit :: "nat \<Rightarrow> bool" where
  "is_digit c \<longleftrightarrow> 48 \<le> c \<and> c \<le> 57"

definition digits_val :: "ustr \<Rightarrow> nat" where
  "digits_val ds = foldl (\<lambda>n d. 10 * n + (d - 48)) 0 ds"

definition hex_val :: "nat \<Rightarrow> nat option" where
  "hex_val c =
     (if 48 \<le> c \<and> c \<le> 57 then Some (c - 48)
      else if 97 \<le> c \<and> c \<le> 102 then Some (c - 87)
      else if 65 \<le> c \<and> c \<le> 70 then Some (c - 55)
      else None)"

definition hexs :: "ustr \<Rightarrow> nat option" where
  "hexs ds =
     foldl (\<lambda>a d. case (a, hex_val d) of (Some n, Some v) \<Rightarrow> Some (16 * n + v) | _ \<Rightarrow> None)
       (Some 0) ds"

definition unescape :: "nat \<Rightarrow> nat option" where
  "unescape e =
     (if e = 34 then Some 34 else if e = 92 then Some 92 else if e = 47 then Some 47
      else if e = 98 then Some 8 else if e = 102 then Some 12 else if e = 110 then Some 10
      else if e = 114 then Some 13 else if e = 116 then Some 9 else None)"

text \<open>
  One escape, after its backslash: the character it stands for and the text after it. A
  \<^verbatim>\<open>\u\<close> escape has four hexadecimal digits; a high surrogate followed by the escape
  of a low surrogate is joined with it into one character.
\<close>

definition escape :: "ustr \<Rightarrow> (nat \<times> ustr) option" where
  "escape cs =
     (case cs of
        [] \<Rightarrow> None
      | e # cs1 \<Rightarrow>
          if e \<noteq> 117 then map_option (\<lambda>x. (x, cs1)) (unescape e)
          else if length cs1 < 4 then None
          else (case hexs (take 4 cs1) of
              None \<Rightarrow> None
            | Some x \<Rightarrow>
                (let cs2 = drop 4 cs1
                 in if 0xD800 \<le> x \<and> x \<le> 0xDBFF \<and> 6 \<le> length cs2 \<and> take 2 cs2 = [92, 117]
                    then (case hexs (take 4 (drop 2 cs2)) of
                        None \<Rightarrow> None
                      | Some y \<Rightarrow>
                          if 0xDC00 \<le> y \<and> y \<le> 0xDFFF
                          then Some (0x10000 + (x - 0xD800) * 0x400 + (y - 0xDC00), drop 6 cs2)
                          else Some (x, cs2))
                    else Some (x, cs2))))"

text \<open>
  The body of a string, after its opening quote: up to the closing quote, escapes decoded,
  control characters refused.
\<close>

function scanstring :: "ustr \<Rightarrow> ustr \<Rightarrow> (ustr \<times> ustr) option" where
  "scanstring [] acc = None"
| "scanstring (c # cs) acc =
     (if c = 34 then Some (acc, cs)
      else if c < 32 then None
      else if c \<noteq> 92 then scanstring cs (acc @ [c])
      else (case escape cs of
          None \<Rightarrow> None
        | Some (x, r) \<Rightarrow> scanstring r (acc @ [x])))"
  by pat_completeness auto
termination
proof (relation "measure (\<lambda>(cs, acc). length cs)", goal_cases)
  case 1
  show ?case by simp
next
  case (2 c cs acc)
  show ?case by simp
next
  case (3 c cs acc p x r)
  then have "escape cs = Some (x, r)" by simp
  then have "length r < length cs"
    by (auto simp: escape_def Let_def split: list.splits if_splits option.splits)
  then show ?case by simp
qed

text \<open>
  A number: \<^verbatim>\<open>-?(0|[1-9][0-9]*)(\.[0-9]+)?([eE][-+]?[0-9]+)?\<close>. A fraction or an
  exponent that is not complete is left unread. The value is an int when there is neither.
\<close>

definition scan_exponent :: "ustr \<Rightarrow> (int \<times> ustr) option" where
  "scan_exponent s =
     (case s of
        [] \<Rightarrow> None
      | e # s1 \<Rightarrow>
          if e \<noteq> 101 \<and> e \<noteq> 69 then None
          else (let neg = (case s1 of [] \<Rightarrow> False | c # _ \<Rightarrow> c = 45);
                    s2 = (case s1 of [] \<Rightarrow> [] | c # t \<Rightarrow> if c = 45 \<or> c = 43 then t else s1);
                    ds = takeWhile is_digit s2
                in if ds = [] then None
                   else Some (if neg then - int (digits_val ds) else int (digits_val ds),
                              dropWhile is_digit s2)))"

definition int_part :: "ustr \<Rightarrow> ustr" where
  "int_part s = (case s of [] \<Rightarrow> [] | c # t \<Rightarrow> if c = 48 then [c] else takeWhile is_digit s)"

definition frac_part :: "ustr \<Rightarrow> ustr" where
  "frac_part s = (case s of [] \<Rightarrow> [] | c # t \<Rightarrow> if c = 46 then takeWhile is_digit t else [])"

definition number_value :: "bool \<Rightarrow> ustr \<Rightarrow> ustr \<Rightarrow> int option \<Rightarrow> json" where
  "number_value neg ip fp ex =
     (let sgn = (if neg then - 1 else 1)
      in if fp = [] \<and> ex = None then JInt (sgn * int (digits_val ip))
         else (let m = of_int (sgn * int (digits_val (ip @ fp))) :: rat;
                   p = (case ex of None \<Rightarrow> 0 | Some n \<Rightarrow> n) - int (length fp)
               in JFloat (if 0 \<le> p then m * 10 ^ nat p else m / 10 ^ nat (- p))))"

definition scan_number :: "ustr \<Rightarrow> (json \<times> ustr) option" where
  "scan_number s =
     (let neg = (case s of [] \<Rightarrow> False | c # _ \<Rightarrow> c = 45);
          s1 = (if neg then tl s else s);
          ip = int_part s1;
          s2 = drop (length ip) s1;
          fp = frac_part s2;
          s3 = (if fp = [] then s2 else drop (Suc (length fp)) s2);
          ex = scan_exponent s3
      in if ip = [] then None
         else Some (number_value neg ip fp (map_option fst ex),
                    case ex of None \<Rightarrow> s3 | Some (n, t) \<Rightarrow> t))"

text \<open>
  The recursive descent of the decoder: a value, the elements of an array from the start
  of an element on, the members of an object from the start of a key on. A value consumes
  at least one character; the tests on the length say so where the recursion needs it.
\<close>

function scan_once :: "ustr \<Rightarrow> (json \<times> ustr) option"
  and parse_array :: "json list \<Rightarrow> ustr \<Rightarrow> (json \<times> ustr) option"
  and parse_object :: "dict \<Rightarrow> ustr \<Rightarrow> (json \<times> ustr) option"
where
  "scan_once s =
     (case s of
        [] \<Rightarrow> None
      | c # cs \<Rightarrow>
          if c = 34 then map_option (\<lambda>(x, r). (JStr x, r)) (scanstring cs [])
          else if c = 123 then
            (case skip_ws cs of
               [] \<Rightarrow> None
             | d # r \<Rightarrow> if d = 125 then Some (JObj [], r) else parse_object [] (skip_ws cs))
          else if c = 91 then
            (case skip_ws cs of
               [] \<Rightarrow> None
             | d # r \<Rightarrow> if d = 93 then Some (JArr [], r) else parse_array [] (skip_ws cs))
          else if take 4 s = [110, 117, 108, 108] then Some (JNull, drop 4 s)
          else if take 4 s = [116, 114, 117, 101] then Some (JBool True, drop 4 s)
          else if take 5 s = [102, 97, 108, 115, 101] then Some (JBool False, drop 5 s)
          else scan_number s)"
| "parse_array acc s =
     (case scan_once s of
        None \<Rightarrow> None
      | Some (v, r) \<Rightarrow>
          if length r < length s then
            (case skip_ws r of
               [] \<Rightarrow> None
             | d # r' \<Rightarrow>
                 if d = 93 then Some (JArr (acc @ [v]), r')
                 else if d = 44 then parse_array (acc @ [v]) (skip_ws r')
                 else None)
          else None)"
| "parse_object acc s =
     (case s of
        [] \<Rightarrow> None
      | q # s1 \<Rightarrow>
          if q \<noteq> 34 then None
          else (case scanstring s1 [] of
              None \<Rightarrow> None
            | Some (key, s2) \<Rightarrow>
                (case skip_ws s2 of
                   [] \<Rightarrow> None
                 | c # s3 \<Rightarrow>
                     if c \<noteq> 58 \<or> length s \<le> length (skip_ws s3) then None
                     else (case scan_once (skip_ws s3) of
                         None \<Rightarrow> None
                       | Some (v, r) \<Rightarrow>
                           if length r < length (skip_ws s3) then
                             (case skip_ws r of
                                [] \<Rightarrow> None
                              | d # r' \<Rightarrow>
                                  if d = 125 then Some (JObj (AList.update key v acc), r')
                                  else if d = 44
                                  then parse_object (AList.update key v acc) (skip_ws r')
                                  else None)
                           else None))))"
  by pat_completeness auto
termination
proof (relation "measure (\<lambda>x. case x of
          Inl s \<Rightarrow> 2 * length s
        | Inr (Inl (acc, s)) \<Rightarrow> 2 * length s + 1
        | Inr (Inr (acc, s)) \<Rightarrow> 2 * length s + 1)", goal_cases)
  case 1
  show ?case by simp
next
  case (2 s c cs d r)
  have "length (skip_ws cs) \<le> length cs"
    by (simp add: skip_ws_def length_dropWhile_le)
  with 2 show ?case by simp
next
  case (3 s c cs d r)
  have "length (skip_ws cs) \<le> length cs"
    by (simp add: skip_ws_def length_dropWhile_le)
  with 3 show ?case by simp
next
  case (4 acc s)
  show ?case by simp
next
  case (5 acc s x v r d r')
  have "length (skip_ws r') \<le> length r'" "length (skip_ws r) \<le> length r"
    by (simp_all add: skip_ws_def length_dropWhile_le)
  with 5 show ?case by simp
next
  case (6 acc s q s1 x key s2 c s3)
  then show ?case by simp
next
  case (7 acc s q s1 x key s2 c s3 y v r d r')
  have "length (skip_ws r') \<le> length r'" "length (skip_ws r) \<le> length r"
    by (simp_all add: skip_ws_def length_dropWhile_le)
  with 7 show ?case by simp
qed

text \<open>\<^verbatim>\<open>json.loads\<close>: one value, white space around it, and nothing else.\<close>

definition json_loads :: "ustr \<Rightarrow> error + json" where
  "json_loads s =
     (case scan_once (skip_ws s) of
        None \<Rightarrow> Inl JSONDecodeError
      | Some (v, r) \<Rightarrow> if skip_ws r = [] then Inr v else Inl JSONDecodeError)"

text \<open>
  \<^verbatim>\<open>float(value)\<close> on what the numeric patterns of the last recovery tier capture, a
  non-empty string over \<^verbatim>\<open>[0-9.]\<close>: a float when there is at most one dot and at least
  one digit, \<^verbatim>\<open>ValueError\<close> otherwise.
\<close>

definition py_float :: "ustr \<Rightarrow> error + rat" where
  "py_float s =
     (let ip = takeWhile is_digit s; rest = dropWhile is_digit s
      in case rest of
           [] \<Rightarrow> if ip = [] then Inl ValueError else Inr (of_nat (digits_val ip))
         | d # fp \<Rightarrow>
             if d = 46 \<and> list_all is_digit fp \<and> (ip \<noteq> [] \<or> fp \<noteq> [])
             then Inr (of_nat (digits_val (ip @ fp)) / 10 ^ length fp)
             else Inl ValueError)"

subsection \<open>Python's operators on JSON values\<close>

fun truthy :: "json \<Rightarrow> bool" where
  "truthy JNull = False"
| "truthy (JBool b) = b"
| "truthy (JInt i) = (i \<noteq> 0)"
| "truthy (JFloat x) = (x \<noteq> 0)"
| "truthy (JStr s) = (s \<noteq> [])"
| "truthy (JArr xs) = (xs \<noteq> [])"
| "truthy (JObj kvs) = (kvs \<noteq> [])"

text \<open>A bool is an int in Python; an int or a float is a number.\<close>

fun as_int :: "json \<Rightarrow> int option" where
  "as_int (JBool b) = Some (if b then 1 else 0)"
| "as_int (JInt i) = Some i"
| "as_int _ = None"

fun as_num :: "json \<Rightarrow> rat option" where
  "as_num (JBool b) = Some (if b then 1 else 0)"
| "as_num (JInt i) = Some (of_int i)"
| "as_num (JFloat x) = Some x"
| "as_num _ = None"

text \<open>
  \<^verbatim>\<open>a * b\<close>: the product of two numbers, a string or a list repeated by an int, and
  \<^verbatim>\<open>TypeError\<close> for every other pair.
\<close>

definition py_mul :: "json \<Rightarrow> json \<Rightarrow> error + json" where
  "py_mul a b =
     (case (as_int a, as_int b) of
        (Some i, Some j) \<Rightarrow> Inr (JInt (i * j))
      | (Some i, None) \<Rightarrow>
          (case b of
             JFloat y \<Rightarrow> Inr (JFloat (of_int i * y))
           | JStr t \<Rightarrow> Inr (JStr (concat (replicate (nat i) t)))
           | JArr ys \<Rightarrow> Inr (JArr (concat (replicate (nat i) ys)))
           | _ \<Rightarrow> Inl TypeError)
      | (None, Some j) \<Rightarrow>
          (case a of
             JFloat x \<Rightarrow> Inr (JFloat (x * of_int j))
           | JStr t \<Rightarrow> Inr (JStr (concat (replicate (nat j) t)))
           | JArr xs \<Rightarrow> Inr (JArr (concat (replicate (nat j) xs)))
           | _ \<Rightarrow> Inl TypeError)
      | (None, None) \<Rightarrow>
          (case (a, b) of
             (JFloat x, JFloat y) \<Rightarrow> Inr (JFloat (x * y))
           | _ \<Rightarrow> Inl TypeError))"

text \<open>\<^verbatim>\<open>a / 100\<close>: true division of a number, a float; \<^verbatim>\<open>TypeError\<close> otherwise.\<close>

definition py_div100 :: "json \<Rightarrow> error + json" where
  "py_div100 a = (case as_num a of Some x \<Rightarrow> Inr (JFloat (x / 100)) | None \<Rightarrow> Inl TypeError)"

text \<open>
  \<^verbatim>\<open>round(x, 2)\<close>: to the nearest hundredth, a tie to the even one. An int is its own
  rounding.
\<close>

definition round_half_even :: "rat \<Rightarrow> int" where
  "round_half_even x =
     (let f = \<lfloor>x\<rfloor>; d = x - of_int f
      in if d < 1 / 2 then f else if 1 / 2 < d then f + 1 else if even f then f else f + 1)"

definition py_round2 :: "json \<Rightarrow> error + json" where
  "py_round2 a =
     (case a of
        JFloat x \<Rightarrow> Inr (JFloat (of_int (round_half_even (x * 100)) / 100))
      | _ \<Rightarrow> (case as_int a of Some i \<Rightarrow> Inr (JInt i) | None \<Rightarrow> Inl TypeError))"

text \<open>\<^verbatim>\<open>abs(a - b)\<close> and \<^verbatim>\<open>a > 0.01\<close> on numbers; \<^verbatim>\<open>TypeError\<close> otherwise.\<close>

definition py_abs_diff :: "json \<Rightarrow> json \<Rightarrow> error + rat" where
  "py_abs_diff a b =
     (case (as_num a, as_num b) of
        (Some x, Some y) \<Rightarrow> Inr \<bar>x - y\<bar>
      | _ \<Rightarrow> Inl TypeError)"

definition and_then :: "error + 'a \<Rightarrow> ('a \<Rightarrow> error + 'b) \<Rightarrow> error + 'b" where
  "and_then r f = (case r of Inl e \<Rightarrow> Inl e | Inr x \<Rightarrow> f x)"

definition dict_get :: "dict \<Rightarrow> ustr \<Rightarrow> json \<Rightarrow> json" where
  "dict_get d k dflt = (case map_of d k of None \<Rightarrow> dflt | Some v \<Rightarrow> v)"

section \<open>InvoiceAuditor: recovering a record from the reply\<close>

definition find_ch :: "ustr \<Rightarrow> nat \<Rightarrow> int" where
  "find_ch s c = (if c \<in> set s then int (length (takeWhile (\<lambda>x. x \<noteq> c) s)) else - 1)"

definition rfind_ch :: "ustr \<Rightarrow> nat \<Rightarrow> int" where
  "rfind_ch s c =
     (if c \<in> set s then int (length s) - 1 - int (length (takeWhile (\<lambda>x. x \<noteq> c) (rev s)))
      else - 1)"

text \<open>\<^verbatim>\<open>s[i:j]\<close> for indices that are not negative.\<close>

definition slice :: "ustr \<Rightarrow> int \<Rightarrow> int \<Rightarrow> ustr" where
  "slice s i j = take (nat j - nat i) (drop (nat i) s)"

text \<open>
  Lines 377 to 385 of the source, the rewriting of \<^verbatim>\<open>json_str\<close> inside the branch that
  found a pair of braces: a newline inside a quoted value, newlines after a comma, after
  an opening brace and before a closing brace, then every run of white space.
\<close>

definition collapse_json_str :: "ustr \<Rightarrow> ustr" where
  "collapse_json_str json_str0 =
    (let json_str =
           re_sub (cat [Lit [34], Star ws, Lit [58], Star ws, Lit [34],
                        Grp 1 (Star (Neg [Ch 34])), Lit [10], Grp 2 (Star (Neg [Ch 34])),
                        Lit [34]])
             (\<lambda>g. [34, 58, 32, 34] @ grp g 1 @ [32] @ grp g 2 @ [34]) json_str0;
         json_str = re_sub (cat [Lit [44], Star ws, Lit [10], Star ws]) (\<lambda>g. [44, 32]) json_str;
         json_str = re_sub (cat [Lit [123], Star ws, Lit [10], Star ws]) (\<lambda>g. [123, 32]) json_str;
         json_str = re_sub (cat [Star ws, Lit [10], Star ws, Lit [125]]) (\<lambda>g. [32, 125]) json_str
     in re_sub (Plus ws) (\<lambda>g. [32]) json_str)"

definition strip_fences :: "ustr \<Rightarrow> ustr" where
  "strip_fences text = re_sub (cat [Lit [96, 96, 96], Opt (Lit (str ''json'')), Star ws]) (\<lambda>g. []) text"

definition extract_json_from_text :: "ustr \<Rightarrow> ustr" where
  "extract_json_from_text text0 =
    (let text = strip_fences text0;
         text = strip text;
         start_idx = find_ch text 123;
         end_idx = rfind_ch text 125
     in if start_idx \<ge> 0 \<and> end_idx > start_idx
        then collapse_json_str (slice text start_idx (end_idx + 1))
        else text)"

text \<open>The ten keys of the record, and the pattern the last tier searches for each.\<close>

definition key_colon :: "string \<Rightarrow> regex list" where
  "key_colon k = [Lit ([34] @ str k @ [34]), Star ws, Lit [58], Star ws]"

definition quoted_value :: regex where
  "quoted_value = cat [Lit [34], Grp 1 (Star (Neg [Ch 34])), Lit [34]]"

definition quoted_pattern :: "string \<Rightarrow> regex" where
  "quoted_pattern k = cat (key_colon k @ [quoted_value])"

definition number_pattern :: "string \<Rightarrow> regex" where
  "number_pattern k = cat (key_colon k @ [Grp 1 (Plus (Pos [Rng 48 57, Ch 46]))])"

definition nullable_pattern :: "string \<Rightarrow> regex" where
  "nullable_pattern k = cat (key_colon k @ [Alt quoted_value (Lit (str ''null''))])"

definition empty_result :: dict where
  "empty_result =
     [(str ''invoice_number'', JNull), (str ''date'', JNull), (str ''supplier'', JNull),
      (str ''buyer'', JNull), (str ''amount'', JNull), (str ''vat'', JNull),
      (str ''vat_rate'', JNull), (str ''contract_number'', JNull),
      (str ''payment_date'', JNull), (str ''meter_number'', JNull)]"

definition patterns :: "(ustr \<times> regex) list" where
  "patterns =
     [(str ''invoice_number'', quoted_pattern ''invoice_number''),
      (str ''date'', quoted_pattern ''date''),
      (str ''supplier'', quoted_pattern ''supplier''),
      (str ''buyer'', quoted_pattern ''buyer''),
      (str ''amount'', number_pattern ''amount''),
      (str ''vat'', number_pattern ''vat''),
      (str ''vat_rate'', number_pattern ''vat_rate''),
      (str ''contract_number'', nullable_pattern ''contract_number''),
      (str ''payment_date'', nullable_pattern ''payment_date''),
      (str ''meter_number'', nullable_pattern ''meter_number'')]"

text \<open>
  One turn of the loop over \<^verbatim>\<open>patterns.items()\<close>. \<open>value\<close> is group 1 of the match, or
  unset when the group is empty or took no part. Only \<^verbatim>\<open>ValueError\<close> is caught around
  \<^verbatim>\<open>float\<close>.
\<close>

definition salvage_key :: "ustr \<Rightarrow> ustr \<Rightarrow> regex \<Rightarrow> dict \<Rightarrow> error + dict" where
  "salvage_key json_str key pattern result =
     (case re_search pattern json_str of
        None \<Rightarrow> Inr result
      | Some g \<Rightarrow>
          (let val = (case g 1 of None \<Rightarrow> None | Some v \<Rightarrow> if v \<noteq> [] then Some v else None)
           in case val of
                Some v \<Rightarrow>
                  if key \<in> set [str ''amount'', str ''vat'', str ''vat_rate''] then
                    (case py_float v of
                       Inr x \<Rightarrow> Inr (AList.update key (JFloat x) result)
                     | Inl e \<Rightarrow>
                         if e = ValueError then Inr (AList.update key JNull result) else Inl e)
                  else Inr (AList.update key (JStr v) result)
              | None \<Rightarrow> Inr (AList.update key JNull result)))"

fun salvage :: "ustr \<Rightarrow> (ustr \<times> regex) list \<Rightarrow> dict \<Rightarrow> error + dict" where
  "salvage json_str [] result = Inr result"
| "salvage json_str ((key, pattern) # ps) result =
     (case salvage_key json_str key pattern result of
        Inl e \<Rightarrow> Inl e
      | Inr result' \<Rightarrow> salvage json_str ps result')"

text \<open>
  Lines 406 to 410: the repair of the second tier. The last tier searches the repaired
  string, since the source assigns it to \<^verbatim>\<open>json_str\<close>.
\<close>

definition repair :: "ustr \<Rightarrow> ustr" where
  "repair json_str0 =
    (let json_str = re_sub (cat [Lit [44], Star ws, Lit [125]]) (\<lambda>g. [125]) json_str0;
         json_str = re_sub (cat [Lit [44], Star ws, Lit [93]]) (\<lambda>g. [93]) json_str
     in map (\<lambda>c. if c = 39 then 34 else c) json_str)"

text \<open>
  Each \<^verbatim>\<open>try\<close> catches \<^verbatim>\<open>json.JSONDecodeError\<close> and nothing else, so any other error
  of the decoder would leave the function.
\<close>

definition parse_json_robust :: "ustr \<Rightarrow> error + json" where
  "parse_json_robust text =
    (let json_str = extract_json_from_text text
     in case json_loads json_str of
          Inr v \<Rightarrow> Inr v
        | Inl e \<Rightarrow>
            if e \<noteq> JSONDecodeError then Inl e
            else (let json_str = repair json_str
                  in case json_loads json_str of
                       Inr v \<Rightarrow> Inr v
                     | Inl e \<Rightarrow>
                         if e \<noteq> JSONDecodeError then Inl e
                         else map_sum id JObj (salvage json_str patterns empty_result)))"

subsection \<open>The consistency check\<close>

datatype warning = Missing_field ustr | Vat_mismatch json json

definition required_fields :: "ustr list" where
  "required_fields =
     [str ''invoice_number'', str ''date'', str ''supplier'', str ''buyer'', str ''amount'',
      str ''vat'']"

definition missing_fields :: "dict \<Rightarrow> warning list" where
  "missing_fields data =
     map Missing_field
       (filter (\<lambda>field. map_of data field = None \<or> map_of data field = Some JNull)
          required_fields)"

text \<open>
  The result is the record and the lines printed. The arithmetic runs only when the three
  values are truthy; any error it raises leaves the function, which catches nothing.
\<close>

definition validate_result :: "dict \<Rightarrow> error + (dict \<times> warning list)" where
  "validate_result data =
    (let warnings = missing_fields data;
         amount = dict_get data (str ''amount'') (JInt 0);
         vat = dict_get data (str ''vat'') (JInt 0);
         vat_rate = dict_get data (str ''vat_rate'') (JInt 0)
     in if truthy amount \<and> truthy vat \<and> truthy vat_rate then
          and_then (py_mul amount vat_rate) (\<lambda>product.
          and_then (py_div100 product) (\<lambda>quotient.
          and_then (py_round2 quotient) (\<lambda>expected_vat.
          and_then (py_abs_diff vat expected_vat) (\<lambda>diff.
            if diff > 1 / 100
            then Inr (data, warnings @ [Vat_mismatch vat expected_vat])
            else Inr (data, warnings)))))
        else Inr (data, warnings))"

section \<open>GigaChatAuth: the bearer token\<close>

text \<open>
  A \<^verbatim>\<open>datetime\<close> is a number of microseconds, a \<^verbatim>\<open>timedelta\<close> a difference of two.
  What the program does to the outside is recorded in a trace: the token exchange, the
  completion request with the token it carries, each \<^verbatim>\<open>time.sleep\<close> with its seconds,
  each warning of the consistency check, and the start of each turn of the retry loop.
\<close>

definition TOKEN_REFRESH_BUFFER_MINUTES :: int where
  "TOKEN_REFRESH_BUFFER_MINUTES = 5"

definition minutes :: "int \<Rightarrow> int" where
  "minutes n = n * 60000000"

datatype event = Attempt nat | Fetch | Post "ustr option" | Sleep nat | Warn warning

record state =
  p_token :: "ustr option"
  p_token_expires_at :: "int option"
  trace :: "event list"

text \<open>
  What the outside does during one turn of the loop: the clock when the accessor reads
  it, the answer to a token exchange (an access token and, when given, \<^verbatim>\<open>expires_at\<close> in
  milliseconds; a timeout; any other failure, a status other than 200 among them), the
  clock when \<^verbatim>\<open>_fetch_token\<close> computes the default expiry, and the answer to the
  completion request (the content of the reply; a timeout; status 401; any other failure,
  an error status or a body without the content among them). An \<^verbatim>\<open>expires_at\<close> is taken
  to be a whole number of milliseconds that \<^verbatim>\<open>datetime.fromtimestamp\<close> accepts. The
  prompt is sent with the request and has no part in what follows, so it is not recorded.
\<close>

datatype fetch_reply = Fetch_timeout | Fetch_failed | Fetch_ok ustr "int option"

datatype post_reply = Post_timeout | Post_failed | Post_unauthorized | Post_content ustr

record world =
  now :: int
  fetch_reply :: fetch_reply
  fetch_now :: int
  post_reply :: post_reply

definition fetch_token :: "world \<Rightarrow> state \<Rightarrow> (error + unit) \<times> state" where
  "fetch_token w st0 =
    (let st = st0\<lparr>trace := trace st0 @ [Fetch]\<rparr>
     in case fetch_reply w of
          Fetch_timeout \<Rightarrow> (Inl RequestTimeout, st)
        | Fetch_failed \<Rightarrow> (Inl RequestFailed, st)
        | Fetch_ok access_token expires_at \<Rightarrow>
            (Inr (),
             st\<lparr>p_token := Some access_token,
                p_token_expires_at :=
                  Some (case expires_at of
                          Some ms \<Rightarrow> ms * 1000
                        | None \<Rightarrow> fetch_now w + minutes 30)\<rparr>))"

text \<open>
  The accessor. \<open>stale\<close> is the condition of the \<^verbatim>\<open>if\<close> and of the \<^verbatim>\<open>elif\<close>: no
  token or an empty one, no expiry, or the clock at or past the expiry less the buffer.
\<close>

definition stale :: "world \<Rightarrow> state \<Rightarrow> bool" where
  "stale w st =
     (case p_token st of
        None \<Rightarrow> True
      | Some t \<Rightarrow>
          (case p_token_expires_at st of
             None \<Rightarrow> True
           | Some e \<Rightarrow>
               if t = [] then True
               else now w \<ge> e - minutes TOKEN_REFRESH_BUFFER_MINUTES))"

definition token :: "world \<Rightarrow> state \<Rightarrow> (error + ustr option) \<times> state" where
  "token w st =
     (if stale w st then
        (case fetch_token w st of
           (Inl e, st') \<Rightarrow> (Inl e, st')
         | (Inr u, st') \<Rightarrow> (Inr (p_token st'), st'))
      else (Inr (p_token st), st))"

section \<open>InvoiceAuditor: the retry loop of audit\<close>

text \<open>
  Lines 522 to 528, the inner \<^verbatim>\<open>try\<close>: the reply is parsed, an empty or all-unset
  result raises \<^verbatim>\<open>ValueError\<close>, \<^verbatim>\<open>.values()\<close> of a value that is not a dict raises
  \<^verbatim>\<open>AttributeError\<close>, and the record is validated.
\<close>

definition parse_reply :: "ustr \<Rightarrow> error + (dict \<times> warning list)" where
  "parse_reply result_text =
     and_then (parse_json_robust result_text) (\<lambda>result.
       if \<not> truthy result then Inl ValueError
       else (case result of
           JObj d \<Rightarrow>
             if list_all (\<lambda>(k, v). v = JNull) d then Inl ValueError else validate_result d
         | _ \<Rightarrow> Inl AttributeError))"

datatype outcome = Record dict | Diagnostic ustr ustr

datatype step = Continue | Return outcome | Raise error

text \<open>
  The two handlers of the outer \<^verbatim>\<open>try\<close>: a timeout sleeps two seconds; any other
  error is raised again on the last attempt and sleeps one second before that.
\<close>

definition on_error :: "error \<Rightarrow> nat \<Rightarrow> state \<Rightarrow> step \<times> state" where
  "on_error e attempt st =
     (if e = RequestTimeout then (Continue, st\<lparr>trace := trace st @ [Sleep 2]\<rparr>)
      else if attempt = 2 then (Raise e, st)
      else (Continue, st\<lparr>trace := trace st @ [Sleep 1]\<rparr>))"

text \<open>
  One turn of \<^verbatim>\<open>for attempt in range(3)\<close>. \<open>text\<close> is the cleaned text of the document,
  which the prompt and the diagnostic record are made of.
\<close>

definition attempt_body :: "world \<Rightarrow> ustr \<Rightarrow> nat \<Rightarrow> state \<Rightarrow> step \<times> state" where
  "attempt_body w text attempt st0 =
    (let st = st0\<lparr>trace := trace st0 @ [Attempt attempt]\<rparr>
     in case token w st of
          (Inl e, st1) \<Rightarrow> on_error e attempt st1
        | (Inr tok, st1) \<Rightarrow>
            (let st2 = st1\<lparr>trace := trace st1 @ [Post tok]\<rparr>
             in case post_reply w of
                  Post_timeout \<Rightarrow> on_error RequestTimeout attempt st2
                | Post_failed \<Rightarrow> on_error RequestFailed attempt st2
                | Post_unauthorized \<Rightarrow> (Continue, st2\<lparr>p_token := None\<rparr>)
                | Post_content result_text \<Rightarrow>
                    (case parse_reply result_text of
                       Inr (result, warnings) \<Rightarrow>
                         (Return (Record result),
                          st2\<lparr>trace := trace st2 @ map Warn warnings\<rparr>)
                     | Inl e \<Rightarrow>
                         if attempt = 2
                         then (Return (Diagnostic result_text (take 1000 text)), st2)
                         else (Continue, st2\<lparr>trace := trace st2 @ [Sleep 1]\<rparr>))))"

text \<open>
  The loop over the attempts that are left, and the \<^verbatim>\<open>raise\<close> after it, which the
  specification calls \<open>CompletionExhausted\<close>.
\<close>

fun attempts :: "(nat \<Rightarrow> world) \<Rightarrow> ustr \<Rightarrow> nat list \<Rightarrow> state \<Rightarrow> (error + outcome) \<times> state" where
  "attempts w text [] st = (Inl CompletionExhausted, st)"
| "attempts w text (attempt # rest) st =
     (case attempt_body (w attempt) text attempt st of
        (Continue, st') \<Rightarrow> attempts w text rest st'
      | (Return r, st') \<Rightarrow> (Inr r, st')
      | (Raise e, st') \<Rightarrow> (Inl e, st'))"

text \<open>
  \<^verbatim>\<open>audit\<close> from the extracted text on: \<open>w\<close> gives the outside for each attempt.
\<close>

definition audit :: "(nat \<Rightarrow> world) \<Rightarrow> ustr \<Rightarrow> state \<Rightarrow> (error + outcome) \<times> state" where
  "audit w extracted st = attempts w (clean_pdf_text extracted) [0, 1, 2] st"

text \<open>What a trace holds: the seconds slept, the requests sent, the attempts begun.\<close>

fun sleeps :: "event list \<Rightarrow> nat list" where
  "sleeps [] = []"
| "sleeps (Sleep n # es) = n # sleeps es"
| "sleeps (e # es) = sleeps es"

fun posts :: "event list \<Rightarrow> nat" where
  "posts [] = 0"
| "posts (Post t # es) = Suc (posts es)"
| "posts (e # es) = posts es"

fun begun :: "event list \<Rightarrow> nat list" where
  "begun [] = []"
| "begun (Attempt a # es) = a # begun es"
| "begun (e # es) = begun es"

fun fetches :: "event list \<Rightarrow> nat" where
  "fetches [] = 0"
| "fetches (Fetch # es) = Suc (fetches es)"
| "fetches (e # es) = fetches es"

section \<open>What the specification says, as predicates\<close>



text \<open>The text holds a \<^verbatim>\<open>{\<close> and, somewhere after it, a \<^verbatim>\<open>}\<close>.\<close>

definition brace_pair :: "ustr \<Rightarrow> bool" where
  "brace_pair text \<longleftrightarrow> find_ch text 123 \<ge> 0 \<and> rfind_ch text 125 > find_ch text 123"



text \<open>The condition under which \<open>validate_result\<close> does the arithmetic.\<close>

definition vat_check_runs :: "dict \<Rightarrow> bool" where
  "vat_check_runs data \<longleftrightarrow>
     truthy (dict_get data (str ''amount'') (JInt 0)) \<and>
     truthy (dict_get data (str ''vat'') (JInt 0)) \<and>
     truthy (dict_get data (str ''vat_rate'') (JInt 0))"

text \<open>
  At time \<open>t\<close> the stored token is valid: its expiry less the buffer is strictly later.
\<close>

definition valid_at :: "int \<Rightarrow> state \<Rightarrow> bool" where
  "valid_at t st =
     (case p_token_expires_at st of
        None \<Rightarrow> False
      | Some e \<Rightarrow> t < e - minutes TOKEN_REFRESH_BUFFER_MINUTES)"

text \<open>The accessor returns a token: it needs no exchange, or the exchange succeeds.\<close>

definition fetch_succeeds :: "world \<Rightarrow> bool" where
  "fetch_succeeds w = (case fetch_reply w of Fetch_ok t e \<Rightarrow> True | _ \<Rightarrow> False)"

definition token_obtained :: "world \<Rightarrow> state \<Rightarrow> bool" where
  "token_obtained w st = (if stale w st then fetch_succeeds w else True)"

subsection \<open>Concrete states and worlds\<close>

definition unset :: state where
  "unset = \<lparr>p_token = None, p_token_expires_at = None, trace = []\<rparr>"

definition stored :: state where
  "stored = \<lparr>p_token = Some (str ''t''), p_token_expires_at = Some 3600000000, trace = []\<rparr>"

text \<open>
  The exchange answers with a token whose \<^verbatim>\<open>expires_at\<close> is the very moment of the call
  (ten minutes after the epoch, in milliseconds).
\<close>

definition late_expiry :: world where
  "late_expiry =
     \<lparr>now = 600000000, fetch_reply = Fetch_ok (str ''t'') (Some 600000),
      fetch_now = 600000000, post_reply = Post_timeout\<rparr>"

definition timeout_world :: world where
  "timeout_world =
     \<lparr>now = 0, fetch_reply = Fetch_ok (str ''t'') None, fetch_now = 0,
      post_reply = Post_timeout\<rparr>"

definition unauthorized_world :: world where
  "unauthorized_world = timeout_world\<lparr>post_reply := Post_unauthorized\<rparr>"

text \<open>Status 401 on the first attempt, a timeout on every later one.\<close>

definition unauthorized_first :: "nat \<Rightarrow> world" where
  "unauthorized_first a = (if a = 0 then unauthorized_world else timeout_world)"



definition zero_rate_record :: dict where
  "zero_rate_record =
     [(str ''amount'', JInt 100), (str ''vat'', JInt 20), (str ''vat_rate'', JInt 0)]"

section \<open>Evaluation\<close>

lemmas re_defs = re_sub_def re_search_def match_at_def cat_def grp_def isspace_def

lemmas text_defs = strip_def lstrip_def rstrip_def str_def find_ch_def rfind_ch_def slice_def

declare scan_once.simps [simp del] parse_array.simps [simp del] parse_object.simps [simp del]

lemmas json_defs = json_loads_def skip_ws_def json_ws_def scan_number_def scan_exponent_def
  int_part_def frac_part_def number_value_def is_digit_def digits_val_def escape_def hexs_def
  hex_val_def unescape_def scan_once.simps parse_array.simps parse_object.simps

lemmas parse_defs = parse_json_robust_def extract_json_from_text_def strip_fences_def
  collapse_json_str_def repair_def

section \<open>The matcher and the decoder advance\<close>

text \<open>
  A match of a pattern that is not nullable consumes at least one character, so the test
  on the length in \<open>sub_from\<close> never stops a replacement: it is there for the termination
  of the scan alone.
\<close>

lemma star_result:
  "star cs l r k = Some x \<Longrightarrow> \<exists>l' r'. k l' r' = Some x \<and> length r' \<le> length r"
proof (induction r arbitrary: l)
  case Nil
  then show ?case by auto
next
  case (Cons c r)
  show ?case
  proof (cases "in_cset c cs \<and> star cs (c # l) r k \<noteq> None")
    case True
    then have "star cs (c # l) r k = Some x"
      using Cons.prems by auto
    from Cons.IH [OF this] obtain l' r' where "k l' r' = Some x" "length r' \<le> length r"
      by blast
    then have "k l' r' = Some x \<and> length r' \<le> length (c # r)" by simp
    then show ?thesis by blast
  next
    case False
    then have "k l (c # r) = Some x"
      using Cons.prems by (auto split: if_splits option.splits)
    then show ?thesis by blast
  qed
qed

lemma matches_result:
  "matches re l r g k = Some x \<Longrightarrow>
     \<exists>l' r' g'. k l' r' g' = Some x \<and> length r' \<le> length r \<and>
       (\<not> nullable re \<longrightarrow> length r' < length r)"
proof (induction re arbitrary: l r g k x)
  case Eps
  then show ?case by auto
next
  case (One cs)
  then obtain c r0 where r: "r = c # r0" and k: "k (c # l) r0 g = Some x"
    by (auto split: list.splits if_splits)
  have "length r0 \<le> length r \<and> length r0 < length r" using r by simp
  with k show ?case by blast
next
  case (Lit s)
  then have t: "take (length s) r = s" and k: "k (rev s @ l) (drop (length s) r) g = Some x"
    by (auto split: if_splits)
  have "s \<noteq> [] \<Longrightarrow> length (drop (length s) r) < length r"
    using t by (cases r) auto
  with k show ?case by force
next
  case (Seq a b)
  from Seq.prems have "matches a l r g (\<lambda>l' r' g'. matches b l' r' g' k) = Some x" by simp
  from Seq.IH(1) [OF this] obtain l1 r1 g1 where
    1: "matches b l1 r1 g1 k = Some x" "length r1 \<le> length r"
      "\<not> nullable a \<longrightarrow> length r1 < length r"
    by blast
  from Seq.IH(2) [OF 1(1)] obtain l2 r2 g2 where
    2: "k l2 r2 g2 = Some x" "length r2 \<le> length r1" "\<not> nullable b \<longrightarrow> length r2 < length r1"
    by blast
  have "length r2 \<le> length r" using 1 2 by simp
  moreover have "\<not> nullable (Seq a b) \<longrightarrow> length r2 < length r" using 1 2 by auto
  ultimately show ?case using 2(1) by blast
next
  case (Alt a b)
  show ?case
  proof (cases "matches a l r g k")
    case None
    then have "matches b l r g k = Some x" using Alt.prems by simp
    from Alt.IH(2) [OF this] show ?thesis by auto
  next
    case (Some y)
    then have "matches a l r g k = Some x" using Alt.prems by simp
    from Alt.IH(1) [OF this] show ?thesis by auto
  qed
next
  case (Star cs)
  then have "star cs l r (\<lambda>l' r'. k l' r' g) = Some x" by simp
  from star_result [OF this] show ?case by auto
next
  case (Plus cs)
  then obtain c r0 where r: "r = c # r0" and "star cs (c # l) r0 (\<lambda>l' r'. k l' r' g) = Some x"
    by (auto split: list.splits if_splits)
  from star_result [OF this(2)] obtain l' r' where
    "k l' r' g = Some x" "length r' \<le> length r0"
    by blast
  moreover have "length r' \<le> length r0 \<Longrightarrow> length r' \<le> length r \<and> length r' < length r"
    using r by simp
  ultimately show ?case by blast
next
  case (Opt a)
  show ?case
  proof (cases "matches a l r g k")
    case None
    then have "k l r g = Some x" using Opt.prems by simp
    then show ?thesis by auto
  next
    case (Some y)
    then have "matches a l r g k = Some x" using Opt.prems by simp
    from Opt.IH [OF this] show ?thesis by auto
  qed
next
  case (Grp n a)
  from Grp.prems have
    "matches a l r g (\<lambda>l' r' g'. k l' r' (g'(n \<mapsto> rev (take (length l' - length l) l')))) = Some x"
    by simp
  from Grp.IH [OF this] show ?case by auto
next
  case (NotBehind cs)
  then have "k l r g = Some x"
    by (auto split: list.splits if_splits)
  then show ?case
    by (intro exI [of _ l] exI [of _ r] exI [of _ g]) simp
next
  case (NotAhead cs)
  then have "k l r g = Some x"
    by (auto split: list.splits if_splits)
  then show ?case
    by (intro exI [of _ l] exI [of _ r] exI [of _ g]) simp
qed

lemma match_at_advances:
  assumes "match_at re l r = Some (l', r', g)" "\<not> nullable re"
  shows "length r' < length r"
  using matches_result [OF assms(1) [unfolded match_at_def]] assms(2) by auto

lemma sub_from_unguarded:
  assumes "\<not> nullable re"
  shows "sub_from re repl l (c # r) =
    (case match_at re l (c # r) of
       None \<Rightarrow> c # sub_from re repl (c # l) r
     | Some (l', r', g) \<Rightarrow> repl g @ sub_from re repl l' r')"
  using match_at_advances [OF _ assms, of l "c # r"]
  by (auto split: option.splits)

lemma nullable_cat: "nullable (cat rs) = list_all nullable rs"
  by (induction rs) (simp_all add: cat_def)

lemma patterns_not_nullable: "list_all (\<lambda>(key, re). \<not> nullable re) patterns"
  by (simp add: patterns_def quoted_pattern_def number_pattern_def nullable_pattern_def
      key_colon_def nullable_cat)

text \<open>
  A value of the decoder consumes at least one character, so the tests on the length in
  \<open>parse_array\<close> and \<open>parse_object\<close> never turn a parse into a failure.
\<close>

lemma escape_shorter: "escape cs = Some (x, r) \<Longrightarrow> length r < length cs"
  by (auto simp: escape_def Let_def split: list.splits if_splits option.splits)

lemma scanstring_shorter: "scanstring cs acc = Some (x, r) \<Longrightarrow> length r < length cs"
proof (induction cs acc rule: scanstring.induct)
  case (1 acc)
  then show ?case by simp
next
  case (2 c cs acc)
  show ?case
  proof (cases "c = 34 \<or> c < 32")
    case True
    with "2.prems" show ?thesis by (auto split: if_splits)
  next
    case False
    show ?thesis
    proof (cases "c = 92")
      case False
      with \<open>\<not> (c = 34 \<or> c < 32)\<close> "2.prems" have "scanstring cs (acc @ [c]) = Some (x, r)"
        by simp
      with "2.IH"(1) False \<open>\<not> (c = 34 \<or> c < 32)\<close> show ?thesis by fastforce
    next
      case True
      with \<open>\<not> (c = 34 \<or> c < 32)\<close> "2.prems" obtain y r1 where
        e: "escape cs = Some (y, r1)" and s: "scanstring r1 (acc @ [y]) = Some (x, r)"
        by (auto split: option.splits)
      have "length r < length r1"
        using "2.IH"(2) [OF _ _ _ e refl s] True \<open>\<not> (c = 34 \<or> c < 32)\<close> by simp
      with escape_shorter [OF e] show ?thesis by simp
    qed
  qed
qed

lemma scan_exponent_le: "scan_exponent s = Some (n, t) \<Longrightarrow> length t \<le> length s"
proof -
  assume a: "scan_exponent s = Some (n, t)"
  then obtain e s1 where s: "s = e # s1" by (cases s) (auto simp: scan_exponent_def)
  define s2 where "s2 = (case s1 of [] \<Rightarrow> [] | c # u \<Rightarrow> if c = 45 \<or> c = 43 then u else s1)"
  have "length s2 \<le> length s1"
    by (auto simp: s2_def split: list.splits)
  moreover have "t = dropWhile is_digit s2"
    using a s by (auto simp: scan_exponent_def Let_def s2_def split: if_splits)
  moreover have "length (dropWhile is_digit s2) \<le> length s2"
    by (rule length_dropWhile_le)
  ultimately show ?thesis using s by simp
qed

lemma int_part_le: "length (int_part s) \<le> length s"
  by (auto simp: int_part_def length_takeWhile_le split: list.splits)

lemma scan_number_shorter:
  assumes a: "scan_number s = Some (v, r)"
  shows "length r < length s"
proof -
  define s1 where "s1 = (if (case s of [] \<Rightarrow> False | c # _ \<Rightarrow> c = 45) then tl s else s)"
  define ip where "ip = int_part s1"
  define s2 where "s2 = drop (length ip) s1"
  define s3 where "s3 = (if frac_part s2 = [] then s2 else drop (Suc (length (frac_part s2))) s2)"
  define s4 where "s4 = (case scan_exponent s3 of None \<Rightarrow> s3 | Some (n, t) \<Rightarrow> t)"
  have eq: "scan_number s =
      (if ip = [] then None
       else Some (number_value (case s of [] \<Rightarrow> False | c # _ \<Rightarrow> c = 45) ip (frac_part s2)
                    (map_option fst (scan_exponent s3)), s4))"
    unfolding scan_number_def Let_def s1_def ip_def s2_def s3_def s4_def by (rule refl)
  have ip: "ip \<noteq> []" and r: "r = s4"
    using a unfolding eq by (simp_all split: if_splits)
  have "length ip \<le> length s1"
    unfolding ip_def by (rule int_part_le)
  then have "length s2 < length s1"
    using ip by (cases ip) (auto simp: s2_def)
  moreover have "length s1 \<le> length s" by (simp add: s1_def)
  moreover have "length s3 \<le> length s2" by (simp add: s3_def)
  moreover have "length s4 \<le> length s3"
    by (auto simp: s4_def dest: scan_exponent_le split: option.splits)
  ultimately show ?thesis using r by simp
qed


lemma skip_ws_le: "length (skip_ws s) \<le> length s"
  by (simp add: skip_ws_def length_dropWhile_le)

lemma skip_ws_Cons_less: "skip_ws r = d # r' \<Longrightarrow> length (skip_ws r') < length r"
  using skip_ws_le [of r] skip_ws_le [of r'] by simp

lemma decoder_shorter:
  "\<forall>v r. scan_once s = Some (v, r) \<longrightarrow> length r < length s"
  "\<forall>v r. parse_array acc s2 = Some (v, r) \<longrightarrow> length r < length s2"
  "\<forall>v r. parse_object acc3 s3 = Some (v, r) \<longrightarrow> length r < length s3"
proof (induction s and acc s2 and acc3 s3 rule: scan_once_parse_array_parse_object.induct)
  case (1 s)
  show ?case
  proof (intro allI impI)
    fix v r
    assume a: "scan_once s = Some (v, r)"
    then obtain c cs where s: "s = c # cs"
      by (cases s) (simp_all add: scan_once.simps)
    have le: "length (skip_ws cs) \<le> length cs" by (rule skip_ws_le)
    note b = a [unfolded scan_once.simps [of s], unfolded s, simplified]
    show "length r < length s"
    proof (cases "c = 34")
      case True
      with b s show ?thesis by (auto dest: scanstring_shorter)
    next
      case n34: False
      show ?thesis
      proof (cases "c = 123")
        case True
        with b n34 obtain d r0 where d: "skip_ws cs = d # r0"
          by (cases "skip_ws cs") auto
        show ?thesis
        proof (cases "d = 125")
          case True
          with b n34 \<open>c = 123\<close> d have "r = r0" by simp
          with d le s show ?thesis by simp
        next
          case False
          with b n34 \<open>c = 123\<close> d have p: "parse_object [] (skip_ws cs) = Some (v, r)" by simp
          have "\<forall>v r. parse_object [] (skip_ws cs) = Some (v, r) \<longrightarrow> length r < length (skip_ws cs)"
            by (rule "1.IH"(1) [OF s n34 \<open>c = 123\<close> d False])
          with p le s show ?thesis by fastforce
        qed
      next
        case n123: False
        show ?thesis
        proof (cases "c = 91")
          case True
          with b n34 n123 obtain d r0 where d: "skip_ws cs = d # r0"
            by (cases "skip_ws cs") auto
          show ?thesis
          proof (cases "d = 93")
            case True
            with b n34 n123 \<open>c = 91\<close> d have "r = r0" by simp
            with d le s show ?thesis by simp
          next
            case False
            with b n34 n123 \<open>c = 91\<close> d have p: "parse_array [] (skip_ws cs) = Some (v, r)" by simp
            have "\<forall>v r. parse_array [] (skip_ws cs) = Some (v, r) \<longrightarrow> length r < length (skip_ws cs)"
              by (rule "1.IH"(2) [OF s n34 n123 \<open>c = 91\<close> d False])
            with p le s show ?thesis by fastforce
          qed
        next
          case False
          with b n34 n123 s show ?thesis
            by (auto dest: scan_number_shorter split: if_splits)
        qed
      qed
    qed
  qed
next
  case (2 acc s)
  show ?case
  proof (intro allI impI)
    fix v r
    assume a: "parse_array acc s = Some (v, r)"
    note b = a [unfolded parse_array.simps [of acc s]]
    from b obtain v1 r1 where 1: "scan_once s = Some (v1, r1)"
      by (cases "scan_once s") auto
    from b 1 have l: "length r1 < length s"
      by (simp split: if_splits)
    from b 1 l obtain d r' where 2: "skip_ws r1 = d # r'"
      by (cases "skip_ws r1") auto
    show "length r < length s"
    proof (cases "d = 93")
      case True
      with b 1 l 2 have "r = r'" by simp
      with 2 l skip_ws_le [of r1] show ?thesis by simp
    next
      case False
      with b 1 l 2 have d: "d = 44" and p: "parse_array (acc @ [v1]) (skip_ws r') = Some (v, r)"
        by (simp_all split: if_splits)
      have "\<forall>v r. parse_array (acc @ [v1]) (skip_ws r') = Some (v, r) \<longrightarrow>
          length r < length (skip_ws r')"
        by (rule "2.IH"(2) [OF 1 refl l 2 False d])
      with p have "length r < length (skip_ws r')" by blast
      with skip_ws_Cons_less [OF 2] l show ?thesis by simp
    qed
  qed
next
  case (3 acc s)
  show ?case
  proof (intro allI impI)
    fix v r
    assume a: "parse_object acc s = Some (v, r)"
    note b = a [unfolded parse_object.simps [of acc s]]
    from b obtain q s1 where s: "s = q # s1"
      by (cases s) auto
    from b s have q: "\<not> q \<noteq> 34"
      by (simp split: if_splits)
    from b s q obtain key s2 where k: "scanstring s1 [] = Some (key, s2)"
      by (cases "scanstring s1 []") auto
    from b s q k obtain c s3 where c: "skip_ws s2 = c # s3"
      by (cases "skip_ws s2") auto
    from b s q k c have g: "\<not> (c \<noteq> 58 \<or> length s \<le> length (skip_ws s3))"
      by (simp split: if_splits)
    from b s q k c g obtain v1 r1 where 1: "scan_once (skip_ws s3) = Some (v1, r1)"
      by (cases "scan_once (skip_ws s3)") auto
    from b s q k c g 1 have l: "length r1 < length (skip_ws s3)"
      by (simp split: if_splits)
    from b s q k c g 1 l obtain d r' where 2: "skip_ws r1 = d # r'"
      by (cases "skip_ws r1") auto
    show "length r < length s"
    proof (cases "d = 125")
      case True
      with b s q k c g 1 l 2 have "r = r'" by simp
      with 2 l g skip_ws_le [of r1] show ?thesis by simp
    next
      case False
      with b s q k c g 1 l 2 have d: "d = 44"
        and p: "parse_object (AList.update key v1 acc) (skip_ws r') = Some (v, r)"
        by (simp_all split: if_splits)
      have "\<forall>v r. parse_object (AList.update key v1 acc) (skip_ws r') = Some (v, r) \<longrightarrow>
          length r < length (skip_ws r')"
        by (rule "3.IH"(2) [OF s q k refl c g 1 refl l 2 False d])
      with p have "length r < length (skip_ws r')" by blast
      with skip_ws_Cons_less [OF 2] l g show ?thesis by simp
    qed
  qed
qed


lemma scan_once_shorter: "scan_once s = Some (v, r) \<Longrightarrow> length r < length s"
  using decoder_shorter(1) by blast

lemma parse_array_unguarded:
  "parse_array acc s =
     (case scan_once s of
        None \<Rightarrow> None
      | Some (v, r) \<Rightarrow>
          (case skip_ws r of
             [] \<Rightarrow> None
           | d # r' \<Rightarrow>
               if d = 93 then Some (JArr (acc @ [v]), r')
               else if d = 44 then parse_array (acc @ [v]) (skip_ws r')
               else None))"
  by (subst parse_array.simps) (auto split: option.splits dest: scan_once_shorter)

lemma parse_object_guard:
  assumes "scanstring s1 [] = Some (key, s2)" "skip_ws s2 = c # s3"
  shows "\<not> length (q # s1) \<le> length (skip_ws s3)"
  using scanstring_shorter [OF assms(1)] skip_ws_Cons_less [OF assms(2)] by simp

lemma parse_object_unguarded:
  "parse_object acc s =
     (case s of
        [] \<Rightarrow> None
      | q # s1 \<Rightarrow>
          if q \<noteq> 34 then None
          else (case scanstring s1 [] of
              None \<Rightarrow> None
            | Some (key, s2) \<Rightarrow>
                (case skip_ws s2 of
                   [] \<Rightarrow> None
                 | c # s3 \<Rightarrow>
                     if c \<noteq> 58 then None
                     else (case scan_once (skip_ws s3) of
                         None \<Rightarrow> None
                       | Some (v, r) \<Rightarrow>
                           (case skip_ws r of
                              [] \<Rightarrow> None
                            | d # r' \<Rightarrow>
                                if d = 125 then Some (JObj (AList.update key v acc), r')
                                else if d = 44
                                then parse_object (AList.update key v acc) (skip_ws r')
                                else None)))))"
proof (cases s)
  case Nil
  then show ?thesis by (subst parse_object.simps) simp
next
  case (Cons q s1)
  show ?thesis
  proof (cases "scanstring s1 []")
    case None
    with Cons show ?thesis by (subst parse_object.simps) simp
  next
    case (Some ks)
    obtain key s2 where ks: "ks = (key, s2)" by (cases ks)
    show ?thesis
    proof (cases "skip_ws s2")
      case Nil
      with Cons Some ks show ?thesis by (subst parse_object.simps) simp
    next
      case c: (Cons c s3)
      have g: "\<not> length (q # s1) \<le> length (skip_ws s3)"
        using parse_object_guard [of s1 key s2 c s3 q] Some ks c by simp
      show ?thesis
      proof (cases "scan_once (skip_ws s3)")
        case None
        with Cons Some ks c show ?thesis by (subst parse_object.simps) simp
      next
        case vr: (Some vr)
        obtain v r where v: "vr = (v, r)" by (cases vr)
        have l: "length r < length (skip_ws s3)"
          using scan_once_shorter vr v by blast
        from Cons Some ks c g vr v l show ?thesis
          by (subst parse_object.simps) simp
      qed
    qed
  qed
qed


text \<open>
  What a numeric pattern of the last tier captures is a non-empty string of digits and
  dots: these are the strings \<open>py_float\<close> is applied to.
\<close>

lemma star_consumed:
  "star cs l r k = Some x \<Longrightarrow>
     \<exists>p r'. list_all (\<lambda>c. in_cset c cs) p \<and> r = p @ r' \<and> k (rev p @ l) r' = Some x"
proof (induction r arbitrary: l)
  case Nil
  then have "k l [] = Some x" by simp
  then show ?case
    by (intro exI [of _ "[]"]) simp
next
  case (Cons c r)
  show ?case
  proof (cases "in_cset c cs \<and> star cs (c # l) r k \<noteq> None")
    case True
    then have "star cs (c # l) r k = Some x"
      using Cons.prems by auto
    from Cons.IH [OF this] obtain p r' where
      p: "list_all (\<lambda>c. in_cset c cs) p" "r = p @ r'" "k (rev p @ c # l) r' = Some x"
      by iprover
    show ?thesis
      using p True by (intro exI [of _ "c # p"] exI [of _ r']) simp
  next
    case False
    then have "k l (c # r) = Some x"
      using Cons.prems by (auto split: if_splits option.splits)
    then show ?thesis
      by (intro exI [of _ "[]"] exI [of _ "c # r"]) simp
  qed
qed

lemma take_rev_prefix: "rev (take (length (rev p @ c # l) - length l) (rev p @ c # l)) = c # p"
  by simp

lemma plus_unfold:
  "matches (Grp n (Plus cs)) l r g k = Some x \<Longrightarrow>
   \<exists>c r0. r = c # r0 \<and> in_cset c cs \<and>
     star cs (c # l) r0 (\<lambda>l' r'. k l' r' (g(n \<mapsto> rev (take (length l' - length l) l')))) = Some x"
  by (cases r) (simp_all split: if_splits)

lemma group_plus_consumed:
  assumes "matches (Grp n (Plus cs)) l r g k = Some x"
  shows "\<exists>p r'. p \<noteq> [] \<and> list_all (\<lambda>c. in_cset c cs) p \<and> k (rev p @ l) r' (g(n \<mapsto> p)) = Some x"
proof -
  from plus_unfold [OF assms] obtain c r0 where c: "in_cset c cs"
    and s: "star cs (c # l) r0
      (\<lambda>l' r'. k l' r' (g(n \<mapsto> rev (take (length l' - length l) l')))) = Some x"
    by iprover
  from star_consumed [OF s] obtain p r' where
    p: "list_all (\<lambda>c. in_cset c cs) p"
    and k: "k (rev p @ c # l) r'
      (g(n \<mapsto> rev (take (length (rev p @ c # l) - length l) (rev p @ c # l)))) = Some x"
    by iprover
  from k have "k (rev (c # p) @ l) r' (g(n \<mapsto> c # p)) = Some x"
    unfolding take_rev_prefix by simp
  then show ?thesis
    using p c by (intro exI [of _ "c # p"] exI [of _ r']) simp
qed


lemma number_pattern_capture:
  assumes "match_at (number_pattern key) l r = Some (l', r', g)"
  shows "\<exists>p. g 1 = Some p \<and> p \<noteq> [] \<and> list_all (\<lambda>c. is_digit c \<or> c = 46) p"
proof -
  define fin where "fin = (\<lambda>(l' :: ustr) (r' :: ustr) (g :: groups). Some (l', r', g))"
  define digits where "digits = Pos [Rng 48 57, Ch 46]"
  have "matches (cat (key_colon key)) l r Map.empty
      (\<lambda>l1 r1 g1. matches (Grp 1 (Plus digits)) l1 r1 g1 fin) = Some (l', r', g)"
    using assms
    by (simp add: match_at_def number_pattern_def key_colon_def cat_def fin_def digits_def)
  from matches_result [OF this] obtain l1 r1 g1 where
    "matches (Grp 1 (Plus digits)) l1 r1 g1 fin = Some (l', r', g)"
    by iprover
  from group_plus_consumed [OF this] obtain p r2 where
    p: "p \<noteq> []" "list_all (\<lambda>c. in_cset c digits) p"
    and "fin (rev p @ l1) r2 (g1(1 \<mapsto> p)) = Some (l', r', g)"
    by iprover
  then have "g 1 = Some p"
    by (auto simp: fin_def)
  moreover have "list_all (\<lambda>c. is_digit c \<or> c = 46) p"
    using p(2) by (simp add: digits_def is_digit_def list_all_iff)
  ultimately show ?thesis using p(1) by blast
qed

lemma search_from_match:
  "search_from re l r = Some g \<Longrightarrow> \<exists>l0 r0 l' r'. match_at re l0 r0 = Some (l', r', g)"
proof (induction r arbitrary: l)
  case Nil
  then show ?case by (auto split: option.splits)
next
  case (Cons c r)
  show ?case
  proof (cases "match_at re l (c # r)")
    case None
    then have "search_from re (c # l) r = Some g" using Cons.prems by simp
    from Cons.IH [OF this] show ?thesis .
  next
    case (Some m)
    then show ?thesis using Cons.prems by (cases m) auto
  qed
qed

lemma number_search_capture:
  assumes "re_search (number_pattern key) s = Some g"
  shows "\<exists>p. g 1 = Some p \<and> p \<noteq> [] \<and> list_all (\<lambda>c. is_digit c \<or> c = 46) p"
  using search_from_match [OF assms [unfolded re_search_def]] number_pattern_capture by blast


section \<open>The response recovery parser\<close>















section \<open>The candidate of the recovery parser\<close>

text \<open>
  Claim C7, as the code has it. When the text, its fence markers removed and trimmed,
  holds no \<^verbatim>\<open>{\<close> with a \<^verbatim>\<open>}\<close> after it, \<open>extract_json_from_text\<close> returns that
  text as it is: nothing is collapsed in it.
\<close>

theorem extract_json_from_text_no_braces:
  assumes "\<not> brace_pair (strip (strip_fences text))"
  shows "extract_json_from_text text = strip (strip_fences text)"
  using assms by (auto simp: extract_json_from_text_def brace_pair_def Let_def)

theorem extract_json_from_text_no_braces_witness:
  "\<not> brace_pair (strip (strip_fences [97, 10, 10, 98])) \<and>
   extract_json_from_text [97, 10, 10, 98] = strip (strip_fences [97, 10, 10, 98])"
proof -
  have h: "\<not> brace_pair (strip (strip_fences [97, 10, 10, 98]))"
    by (simp add: brace_pair_def strip_fences_def re_defs text_defs)
  show ?thesis
    using h extract_json_from_text_no_braces [OF h] by simp
qed

text \<open>
  Claim C7, as stated, fails: the text \<^verbatim>\<open>a\n\nb\<close> has no brace, the collapsing of the
  brace-delimited case would turn it into \<^verbatim>\<open>a b\<close>, and the function returns it with
  its two newlines.
\<close>

theorem extract_json_from_text_not_collapsed:
  "\<not> brace_pair (strip (strip_fences [97, 10, 10, 98])) \<and>
   collapse_json_str (strip (strip_fences [97, 10, 10, 98])) = [97, 32, 98] \<and>
   extract_json_from_text [97, 10, 10, 98] = [97, 10, 10, 98]"
  by (simp add: brace_pair_def parse_defs re_defs text_defs)

section \<open>The text normalizer\<close>

text \<open>
  Claim C3 asks for \<open>clean_pdf_text (clean_pdf_text x) = clean_pdf_text x\<close>. The first
  substitution replaces matches that do not overlap, so of the two gaps in three spaced
  Cyrillic letters (U+0430, U+0431, U+0432) it closes the first only, and a second run
  closes the other: the code is not idempotent there.
\<close>

theorem clean_pdf_text_second_pass_differs:
  "clean_pdf_text [0x430, 32, 0x431, 32, 0x432] = [0x430, 0x431, 32, 0x432] \<and>
   clean_pdf_text (clean_pdf_text [0x430, 32, 0x431, 32, 0x432]) = [0x430, 0x431, 0x432]"
  by (simp add: clean_pdf_text_def cyrillic_def re_defs text_defs)

section \<open>The consistency validator\<close>












lemma missing_fields_no_mismatch: "Vat_mismatch x y \<notin> set (missing_fields data)"
  by (auto simp: missing_fields_def)

lemma validate_result_skipped:
  assumes "\<not> vat_check_runs data"
  shows "validate_result data = Inr (data, missing_fields data)"
  using assms by (auto simp: validate_result_def vat_check_runs_def Let_def)

lemma present_not_missing:
  assumes "map_of data k = Some v" "v \<noteq> JNull"
  shows "Missing_field k \<notin> set (missing_fields data)"
  using assms by (auto simp: missing_fields_def)

lemma zero_not_truthy:
  assumes "map_of data k = Some z" "z = JInt 0 \<or> z = JFloat 0"
    "k \<in> set [str ''amount'', str ''vat'', str ''vat_rate'']"
  shows "\<not> vat_check_runs data"
  using assms by (auto simp: vat_check_runs_def dict_get_def)

lemmas validate_defs = validate_result_def missing_fields_def required_fields_def dict_get_def
  and_then_def py_mul_def py_div100_def py_round2_def py_abs_diff_def round_half_even_def str_def
  Let_def




text \<open>
  Claim C10. The arithmetic check runs only when amount, vat and vat_rate are all truthy.
  When it does not run, the validator returns the record with the warnings about missing
  fields alone, none of them a mismatch. A field that is present and equal to 0 (the int
  or the float) stops the check, and it is not reported as missing. Whenever a mismatch
  is among the warnings, the three values were truthy.
\<close>

theorem vat_check_skipped_on_zero:
  "(\<not> vat_check_runs data \<longrightarrow>
      validate_result data = Inr (data, missing_fields data) \<and>
      (\<forall>x y. Vat_mismatch x y \<notin> set (missing_fields data))) \<and>
   (\<forall>k z. k \<in> set [str ''amount'', str ''vat'', str ''vat_rate''] \<and> map_of data k = Some z \<and>
      (z = JInt 0 \<or> z = JFloat 0) \<longrightarrow>
      \<not> vat_check_runs data \<and> Missing_field k \<notin> set (missing_fields data)) \<and>
   (\<forall>r warnings x y. validate_result data = Inr (r, warnings) \<and>
      Vat_mismatch x y \<in> set warnings \<longrightarrow> vat_check_runs data)"
proof (intro conjI allI impI)
  assume "\<not> vat_check_runs data"
  then show "validate_result data = Inr (data, missing_fields data)"
    by (rule validate_result_skipped)
next
  fix x y
  show "Vat_mismatch x y \<notin> set (missing_fields data)"
    by (rule missing_fields_no_mismatch)
next
  fix k z
  assume h: "k \<in> set [str ''amount'', str ''vat'', str ''vat_rate''] \<and> map_of data k = Some z \<and>
      (z = JInt 0 \<or> z = JFloat 0)"
  then show "\<not> vat_check_runs data"
    using zero_not_truthy [of data k z] by blast
  from h show "Missing_field k \<notin> set (missing_fields data)"
    using present_not_missing [of data k z] by auto
next
  fix r warnings x y
  assume h: "validate_result data = Inr (r, warnings) \<and> Vat_mismatch x y \<in> set warnings"
  show "vat_check_runs data"
  proof (rule ccontr)
    assume "\<not> vat_check_runs data"
    then have "validate_result data = Inr (data, missing_fields data)"
      by (rule validate_result_skipped)
    with h have "Vat_mismatch x y \<in> set (missing_fields data)" by auto
    then show False using missing_fields_no_mismatch by blast
  qed
qed

text \<open>
  The theorem at amount 100, vat 20 and rate 0: the rate is present, the check does not
  run, and nothing is said although 20 is not 0 percent of 100.
\<close>

theorem vat_check_skipped_on_zero_witness:
  "map_of zero_rate_record (str ''vat_rate'') = Some (JInt 0) \<and>
   \<not> vat_check_runs zero_rate_record \<and>
   validate_result zero_rate_record = Inr (zero_rate_record, missing_fields zero_rate_record) \<and>
   Missing_field (str ''vat_rate'') \<notin> set (missing_fields zero_rate_record)"
proof -
  have h: "map_of zero_rate_record (str ''vat_rate'') = Some (JInt 0)"
    by (simp add: zero_rate_record_def str_def)
  have k: "str ''vat_rate'' \<in> set [str ''amount'', str ''vat'', str ''vat_rate'']"
    by simp
  show ?thesis
    using vat_check_skipped_on_zero [of zero_rate_record] h k by blast
qed

section \<open>The credential broker\<close>

lemma stale_trace [simp]: "stale w (st\<lparr>trace := tr\<rparr>) = stale w st"
  by (simp add: stale_def split: option.splits)

lemma token_fresh:
  assumes "\<not> stale w st"
  shows "token w st = (Inr (p_token st), st)"
  using assms by (simp add: token_def)

lemma token_stale:
  assumes "stale w st"
  shows "token w st =
    (case fetch_reply w of
       Fetch_timeout \<Rightarrow> (Inl RequestTimeout, st\<lparr>trace := trace st @ [Fetch]\<rparr>)
     | Fetch_failed \<Rightarrow> (Inl RequestFailed, st\<lparr>trace := trace st @ [Fetch]\<rparr>)
     | Fetch_ok t e \<Rightarrow>
         (Inr (Some t),
          st\<lparr>trace := trace st @ [Fetch], p_token := Some t,
             p_token_expires_at :=
               Some (case e of Some ms \<Rightarrow> ms * 1000 | None \<Rightarrow> fetch_now w + minutes 30)\<rparr>))"
  using assms by (simp add: token_def fetch_token_def Let_def split: fetch_reply.splits)

lemma fresh_valid:
  assumes "\<not> stale w st"
  shows "valid_at (now w) st \<and> (\<exists>t. p_token st = Some t \<and> t \<noteq> [])"
  using assms by (auto simp: stale_def valid_at_def split: option.splits if_splits)

text \<open>
  Claim C9, as the code has it. When no token is stored (or an empty one), no expiry is
  stored, or the clock is at or past the stored expiry less five minutes, the accessor
  makes one token exchange before it returns. A token returned without an exchange has
  its expiry less five minutes strictly after the clock. A token just fetched with no
  \<^verbatim>\<open>expires_at\<close> expires thirty minutes after the clock read in \<^verbatim>\<open>_fetch_token\<close>, so
  it is valid then. A token just fetched with an \<^verbatim>\<open>expires_at\<close> is returned with that
  expiry unchecked: it is valid at a time exactly when the time is more than five minutes
  before the expiry the service gave.
\<close>

theorem token_amended:
  "(stale w st \<longrightarrow> trace (snd (token w st)) = trace st @ [Fetch]) \<and>
   (\<not> stale w st \<longrightarrow> token w st = (Inr (p_token st), st) \<and> valid_at (now w) st) \<and>
   (stale w st \<and> fetch_reply w = Fetch_ok t None \<longrightarrow>
      fst (token w st) = Inr (Some t) \<and> valid_at (fetch_now w) (snd (token w st))) \<and>
   (stale w st \<and> fetch_reply w = Fetch_ok t (Some ms) \<longrightarrow>
      fst (token w st) = Inr (Some t) \<and>
      (\<forall>clock. valid_at clock (snd (token w st)) \<longleftrightarrow>
         clock < ms * 1000 - minutes TOKEN_REFRESH_BUFFER_MINUTES))"
  using fresh_valid [of w st]
  by (auto simp: token_stale token_fresh valid_at_def minutes_def
      TOKEN_REFRESH_BUFFER_MINUTES_def split: fetch_reply.splits)

text \<open>
  The theorem at a stored token that expires in an hour (no exchange, valid), and at the
  unset state with an exchange that gives no expiry (one exchange, valid for 25 minutes).
\<close>

theorem token_amended_witness:
  "\<not> stale timeout_world stored \<and>
   token timeout_world stored = (Inr (Some (str ''t'')), stored) \<and>
   valid_at (now timeout_world) stored \<and>
   stale timeout_world unset \<and>
   trace (snd (token timeout_world unset)) = [Fetch] \<and>
   fst (token timeout_world unset) = Inr (Some (str ''t'')) \<and>
   valid_at (fetch_now timeout_world) (snd (token timeout_world unset))"
proof -
  have a: "\<not> stale timeout_world stored"
    by (simp add: stale_def stored_def timeout_world_def minutes_def
        TOKEN_REFRESH_BUFFER_MINUTES_def str_def)
  have b: "stale timeout_world unset"
    by (simp add: stale_def unset_def)
  have c: "fetch_reply timeout_world = Fetch_ok (str ''t'') None"
    by (simp add: timeout_world_def)
  have d: "p_token stored = Some (str ''t'')" "trace unset = []"
    by (simp_all add: stored_def unset_def)
  show ?thesis
    using token_amended [of timeout_world stored "str ''t''" 0]
      token_amended [of timeout_world unset "str ''t''" 0] a b c d
    by simp
qed

text \<open>
  Claim C9, as stated, fails: from the unset state, with an exchange that answers with
  an \<^verbatim>\<open>expires_at\<close> equal to the time of the call, the accessor returns the token, and
  its expiry less five minutes is not after the clock.
\<close>

theorem token_returned_not_valid:
  "fst (token late_expiry unset) = Inr (Some (str ''t'')) \<and>
   p_token_expires_at (snd (token late_expiry unset)) = Some 600000000 \<and>
   now late_expiry = 600000000 \<and>
   \<not> valid_at (now late_expiry) (snd (token late_expiry unset))"
  by (simp add: token_def stale_def fetch_token_def unset_def late_expiry_def valid_at_def
      minutes_def TOKEN_REFRESH_BUFFER_MINUTES_def)

section \<open>The retry loop\<close>

lemma sleeps_append [simp]: "sleeps (xs @ ys) = sleeps xs @ sleeps ys"
  by (induction xs rule: sleeps.induct) simp_all

lemma posts_append [simp]: "posts (xs @ ys) = posts xs + posts ys"
  by (induction xs rule: posts.induct) simp_all

lemma begun_append [simp]: "begun (xs @ ys) = begun xs @ begun ys"
  by (induction xs rule: begun.induct) simp_all

lemma fetches_append [simp]: "fetches (xs @ ys) = fetches xs + fetches ys"
  by (induction xs rule: fetches.induct) simp_all

lemma sleeps_Warn [simp]: "sleeps (map Warn wns) = []"
  by (induction wns) simp_all

lemma posts_Warn [simp]: "posts (map Warn wns) = 0"
  by (induction wns) simp_all

lemma begun_Warn [simp]: "begun (map Warn wns) = []"
  by (induction wns) simp_all

text \<open>An attempt whose request times out: two seconds of sleep, and the loop goes on.\<close>

lemma attempt_body_timeout:
  assumes "post_reply w = Post_timeout" "fetch_reply w \<noteq> Fetch_failed"
  shows "\<exists>st'. attempt_body w text attempt st = (Continue, st') \<and>
           sleeps (trace st') = sleeps (trace st) @ [2] \<and>
           begun (trace st') = begun (trace st) @ [attempt]"
proof (cases "stale w st")
  case False
  then show ?thesis
    using assms by (simp add: attempt_body_def Let_def token_fresh on_error_def)
next
  case True
  then show ?thesis
    using assms
    by (cases "fetch_reply w") (simp_all add: attempt_body_def Let_def token_stale on_error_def)
qed

text \<open>An attempt answered with status 401.\<close>

lemma attempt_body_unauthorized:
  assumes "post_reply w = Post_unauthorized" "token_obtained w st"
  shows "\<exists>st'. attempt_body w text attempt st = (Continue, st') \<and>
           p_token st' = None \<and>
           sleeps (trace st') = sleeps (trace st) \<and>
           posts (trace st') = Suc (posts (trace st)) \<and>
           begun (trace st') = begun (trace st) @ [attempt]"
proof (cases "stale w st")
  case False
  then show ?thesis
    using assms by (simp add: attempt_body_def Let_def token_fresh)
next
  case True
  then show ?thesis
    using assms
    by (cases "fetch_reply w")
       (simp_all add: attempt_body_def Let_def token_stale token_obtained_def fetch_succeeds_def)
qed

text \<open>An attempt sends at most one request, so a run of the loop sends at most three.\<close>

lemma attempt_body_posts:
  "posts (trace (snd (attempt_body w text attempt st))) \<le> Suc (posts (trace st))"
proof (cases "stale w st")
  case False
  then show ?thesis
    by (simp add: attempt_body_def Let_def token_fresh on_error_def
        split: post_reply.splits sum.splits prod.splits)
next
  case True
  then show ?thesis
    by (simp add: attempt_body_def Let_def token_stale on_error_def
        split: fetch_reply.splits post_reply.splits sum.splits prod.splits)
qed

lemma attempts_posts:
  "posts (trace (snd (attempts w text todo st))) \<le> posts (trace st) + length todo"
proof (induction todo arbitrary: st)
  case Nil
  show ?case by simp
next
  case (Cons a todo)
  obtain s st1 where b: "attempt_body (w a) text a st = (s, st1)"
    by (cases "attempt_body (w a) text a st")
  have p: "posts (trace st1) \<le> Suc (posts (trace st))"
    using attempt_body_posts [of "w a" "text" a st] b by simp
  show ?case
  proof (cases s)
    case Continue
    then show ?thesis using b p Cons.IH [of st1] by simp
  next
    case (Return r)
    then show ?thesis using b p by simp
  next
    case (Raise e)
    then show ?thesis using b p by simp
  qed
qed

lemma attempts_timeouts:
  assumes "\<forall>a \<in> set todo. post_reply (w a) = Post_timeout \<and> fetch_reply (w a) \<noteq> Fetch_failed"
  shows "\<exists>st'. attempts w text todo st = (Inl CompletionExhausted, st') \<and>
           sleeps (trace st') = sleeps (trace st) @ replicate (length todo) 2 \<and>
           begun (trace st') = begun (trace st) @ todo"
  using assms
proof (induction todo arbitrary: st)
  case Nil
  show ?case by simp
next
  case (Cons a todo)
  obtain st1 where st1: "attempt_body (w a) text a st = (Continue, st1)"
    "sleeps (trace st1) = sleeps (trace st) @ [2]"
    "begun (trace st1) = begun (trace st) @ [a]"
    using attempt_body_timeout [of "w a" "text" a st] Cons.prems by auto
  obtain st' where "attempts w text todo st1 = (Inl CompletionExhausted, st')"
    "sleeps (trace st') = sleeps (trace st1) @ replicate (length todo) 2"
    "begun (trace st') = begun (trace st1) @ todo"
    using Cons.IH [of st1] Cons.prems by auto
  with st1 show ?case
    by (simp add: replicate_append_same)
qed

lemmas loop_defs = audit_def attempt_body_def token_def stale_def fetch_token_def on_error_def
  unset_def timeout_world_def unauthorized_world_def unauthorized_first_def minutes_def
  TOKEN_REFRESH_BUFFER_MINUTES_def clean_pdf_text_def Let_def

text \<open>
  Claim C4, as the code has it. An attempt answered with status 401 sets the stored token
  to unset, so that the next read of the accessor fetches one, and goes on to the next
  attempt with no sleep. It is one of the three attempts: the loop continues with the
  attempts that remain, and a run sends at most three requests whatever the answers.
\<close>

theorem unauthorized_consumes_attempt:
  "(post_reply (w a) = Post_unauthorized \<and> token_obtained (w a) st \<longrightarrow>
      (\<exists>st'. attempt_body (w a) text a st = (Continue, st') \<and>
         attempts w text (a # rest) st = attempts w text rest st' \<and>
         p_token st' = None \<and> (\<forall>w'. stale w' st') \<and>
         sleeps (trace st') = sleeps (trace st) \<and>
         posts (trace st') = Suc (posts (trace st)))) \<and>
   posts (trace (snd (audit w extracted st))) \<le> posts (trace st) + 3"
proof (intro conjI impI)
  assume "post_reply (w a) = Post_unauthorized \<and> token_obtained (w a) st"
  then obtain st' where st': "attempt_body (w a) text a st = (Continue, st')"
    "p_token st' = None" "sleeps (trace st') = sleeps (trace st)"
    "posts (trace st') = Suc (posts (trace st))"
    using attempt_body_unauthorized [of "w a" st "text" a] by blast
  have "attempts w text (a # rest) st = attempts w text rest st'"
    using st'(1) by simp
  moreover have "\<forall>w'. stale w' st'"
    using st'(2) by (simp add: stale_def)
  ultimately show "\<exists>st'. attempt_body (w a) text a st = (Continue, st') \<and>
         attempts w text (a # rest) st = attempts w text rest st' \<and>
         p_token st' = None \<and> (\<forall>w'. stale w' st') \<and>
         sleeps (trace st') = sleeps (trace st) \<and>
         posts (trace st') = Suc (posts (trace st))"
    using st' by blast
next
  show "posts (trace (snd (audit w extracted st))) \<le> posts (trace st) + 3"
    using attempts_posts [of w "clean_pdf_text extracted" "[0, 1, 2]" st]
    by (simp add: audit_def)
qed

text \<open>
  The theorem at a 401 on the first attempt from the unset state: attempts 1 and 2 remain.
\<close>

theorem unauthorized_consumes_attempt_witness:
  "post_reply (unauthorized_first 0) = Post_unauthorized \<and>
   token_obtained (unauthorized_first 0) unset \<and>
   (\<exists>st'. attempt_body (unauthorized_first 0) [] 0 unset = (Continue, st') \<and>
      attempts unauthorized_first [] [0, 1, 2] unset = attempts unauthorized_first [] [1, 2] st' \<and>
      p_token st' = None \<and> sleeps (trace st') = sleeps (trace unset))"
proof -
  have a: "post_reply (unauthorized_first 0) = Post_unauthorized"
    by (simp add: unauthorized_first_def unauthorized_world_def)
  have b: "token_obtained (unauthorized_first 0) unset"
    by (simp add: token_obtained_def fetch_succeeds_def unauthorized_first_def
        unauthorized_world_def timeout_world_def)
  show ?thesis
    using unauthorized_consumes_attempt [of unauthorized_first 0 unset "[]" "[1, 2]"] a b
    by blast
qed

text \<open>
  Claim C4, as stated, fails: after a 401 on the first attempt, with a timeout on every
  later request, the run ends with \<open>CompletionExhausted\<close> after three requests in all.
  Two timeouts followed the 401, not three.
\<close>

theorem unauthorized_then_two_timeouts:
  "fst (audit unauthorized_first [] unset) = Inl CompletionExhausted \<and>
   posts (trace (snd (audit unauthorized_first [] unset))) = 3 \<and>
   sleeps (trace (snd (audit unauthorized_first [] unset))) = [2, 2]"
  by (simp add: loop_defs re_defs text_defs)

text \<open>
  Claim C5, as the code has it. A request timeout on any attempt, the first, the second or
  the last, is followed by a sleep of two seconds: the wait is fixed, not linear.
\<close>

theorem timeout_waits_two_seconds:
  assumes "post_reply w = Post_timeout" "fetch_reply w \<noteq> Fetch_failed"
  shows "\<exists>st'. attempt_body w text attempt st = (Continue, st') \<and>
           sleeps (trace st') = sleeps (trace st) @ [2]"
  using attempt_body_timeout [OF assms] by blast

theorem timeout_waits_two_seconds_witness:
  "post_reply timeout_world = Post_timeout \<and> fetch_reply timeout_world \<noteq> Fetch_failed \<and>
   (\<exists>st'. attempt_body timeout_world [] 0 unset = (Continue, st') \<and>
      sleeps (trace st') = sleeps (trace unset) @ [2])"
proof -
  have a: "post_reply timeout_world = Post_timeout"
    and b: "fetch_reply timeout_world \<noteq> Fetch_failed"
    by (simp_all add: timeout_world_def)
  show ?thesis
    using timeout_waits_two_seconds [OF a b, of "[]" 0 unset] a b by simp
qed

text \<open>
  Claim C5, as stated, fails: a timeout on the first attempt is followed by a sleep of
  two seconds, not one, and a run of three timeouts sleeps 2, 2 and 2 seconds.
\<close>

theorem first_timeout_waits_two_seconds:
  "sleeps (trace (snd (attempt_body timeout_world [] 0 unset))) = [2] \<and>
   sleeps (trace (snd (audit (\<lambda>a. timeout_world) [] unset))) = [2, 2, 2]"
  by (simp add: loop_defs re_defs text_defs)

text \<open>
  An attempt whose completion request times out has sent that request, whatever the state
  of the token, provided that the token exchange succeeds when one is made; and an attempt
  that ends in a timeout of either request has sent at least one request.
\<close>

lemma attempt_body_timeout_posts:
  assumes "post_reply w = Post_timeout" "fetch_succeeds w"
  shows "posts (trace (snd (attempt_body w text attempt st))) = Suc (posts (trace st))"
proof (cases "stale w st")
  case False
  then show ?thesis
    using assms by (simp add: attempt_body_def Let_def token_fresh on_error_def)
next
  case True
  then show ?thesis
    using assms
    by (cases "fetch_reply w")
       (simp_all add: attempt_body_def Let_def token_stale on_error_def fetch_succeeds_def)
qed

lemma attempt_body_timeout_requests:
  assumes "post_reply w = Post_timeout"
  shows "Suc (posts (trace st) + fetches (trace st))
    \<le> posts (trace (snd (attempt_body w text attempt st))) +
      fetches (trace (snd (attempt_body w text attempt st)))"
proof (cases "stale w st")
  case False
  then show ?thesis
    using assms by (simp add: attempt_body_def Let_def token_fresh on_error_def)
next
  case True
  then show ?thesis
    using assms
    by (cases "fetch_reply w") (simp_all add: attempt_body_def Let_def token_stale on_error_def)
qed

lemma attempts_timeouts_requests:
  assumes "\<forall>a \<in> set todo. post_reply (w a) = Post_timeout \<and> fetch_reply (w a) \<noteq> Fetch_failed"
  shows "posts (trace st) + fetches (trace st) + length todo
    \<le> posts (trace (snd (attempts w text todo st))) +
      fetches (trace (snd (attempts w text todo st)))"
  using assms
proof (induction todo arbitrary: st)
  case Nil
  show ?case by simp
next
  case (Cons a todo)
  obtain st1 where st1: "attempt_body (w a) text a st = (Continue, st1)"
    using attempt_body_timeout [of "w a" "text" a st] Cons.prems by auto
  have "Suc (posts (trace st) + fetches (trace st)) \<le> posts (trace st1) + fetches (trace st1)"
    using attempt_body_timeout_requests [of "w a" st "text" a] Cons.prems st1 by simp
  moreover have "posts (trace st1) + fetches (trace st1) + length todo
    \<le> posts (trace (snd (attempts w text todo st1))) +
      fetches (trace (snd (attempts w text todo st1)))"
    using Cons.IH [of st1] Cons.prems by simp
  ultimately show ?case
    using st1 by simp
qed

lemma attempts_timeouts_posts:
  assumes "\<forall>a \<in> set todo. post_reply (w a) = Post_timeout \<and> fetch_succeeds (w a)"
  shows "posts (trace (snd (attempts w text todo st))) = posts (trace st) + length todo"
  using assms
proof (induction todo arbitrary: st)
  case Nil
  show ?case by simp
next
  case (Cons a todo)
  have ok: "fetch_reply (w a) \<noteq> Fetch_failed"
    using Cons.prems by (auto simp: fetch_succeeds_def)
  obtain st1 where st1: "attempt_body (w a) text a st = (Continue, st1)"
    using attempt_body_timeout [of "w a" "text" a st] Cons.prems ok by auto
  have "posts (trace st1) = Suc (posts (trace st))"
    using attempt_body_timeout_posts [of "w a" "text" a st] Cons.prems st1 by simp
  moreover have "posts (trace (snd (attempts w text todo st1))) = posts (trace st1) + length todo"
    using Cons.IH [of st1] Cons.prems by simp
  ultimately show ?case
    using st1 by simp
qed

text \<open>
  Claim C6. When the completion request of each of the three attempts times out (the
  token exchange, where one is made, succeeding or timing out as well), the loop runs
  exactly the attempts 0, 1 and 2, each of which sends at least one request and sleeps two
  seconds, and \<open>audit\<close> ends with the error \<open>CompletionExhausted\<close>: no record is returned.
  When every token exchange that is made succeeds, exactly three completion requests are
  sent, one in each attempt.
\<close>

theorem timeouts_exhaust_three_attempts:
  assumes "\<forall>a \<in> {0, 1, 2}. post_reply (w a) = Post_timeout \<and> fetch_reply (w a) \<noteq> Fetch_failed"
  shows "\<exists>st'. audit w extracted st = (Inl CompletionExhausted, st') \<and>
           begun (trace st') = begun (trace st) @ [0, 1, 2] \<and>
           sleeps (trace st') = sleeps (trace st) @ [2, 2, 2] \<and>
           posts (trace st') \<le> posts (trace st) + 3 \<and>
           posts (trace st) + fetches (trace st) + 3 \<le> posts (trace st') + fetches (trace st') \<and>
           ((\<forall>a \<in> {0, 1, 2}. fetch_succeeds (w a)) \<longrightarrow>
              posts (trace st') = posts (trace st) + 3)"
proof -
  have h: "\<forall>a \<in> set [0, 1, 2]. post_reply (w a) = Post_timeout \<and> fetch_reply (w a) \<noteq> Fetch_failed"
    using assms by simp
  from attempts_timeouts [OF h, of "clean_pdf_text extracted" st]
  obtain st' where st': "attempts w (clean_pdf_text extracted) [0, 1, 2] st = (Inl CompletionExhausted, st')"
    "sleeps (trace st') = sleeps (trace st) @ replicate (length [0::nat, 1, 2]) 2"
    "begun (trace st') = begun (trace st) @ [0, 1, 2]"
    by blast
  have "posts (trace st') \<le> posts (trace st) + 3"
    using attempts_posts [of w "clean_pdf_text extracted" "[0, 1, 2]" st] st'(1) by simp
  moreover have "replicate (length [0::nat, 1, 2]) (2::nat) = [2, 2, 2]"
    by (simp add: numeral_3_eq_3)
  moreover have "posts (trace st) + fetches (trace st) + 3 \<le> posts (trace st') + fetches (trace st')"
    using attempts_timeouts_requests [OF h, of st "clean_pdf_text extracted"] st'(1) by simp
  moreover have "posts (trace st') = posts (trace st) + 3"
    if "\<forall>a \<in> {0, 1, 2}. fetch_succeeds (w a)"
  proof -
    have "\<forall>a \<in> set [0, 1, 2]. post_reply (w a) = Post_timeout \<and> fetch_succeeds (w a)"
      using assms that by simp
    from attempts_timeouts_posts [OF this, of "clean_pdf_text extracted" st]
    show ?thesis using st'(1) by simp
  qed
  ultimately show ?thesis
    using st' by (simp add: audit_def)
qed

text \<open>
  The theorem at three timeouts from the unset state, the token exchange succeeding: three
  attempts, three completion requests, three sleeps of two seconds.
\<close>

theorem timeouts_exhaust_three_attempts_witness:
  "post_reply timeout_world = Post_timeout \<and> fetch_reply timeout_world \<noteq> Fetch_failed \<and>
   fetch_succeeds timeout_world \<and>
   (\<exists>st'. audit (\<lambda>a. timeout_world) [] unset = (Inl CompletionExhausted, st') \<and>
      begun (trace st') = [0, 1, 2] \<and> sleeps (trace st') = [2, 2, 2] \<and>
      posts (trace st') = 3)"
proof -
  have h: "\<forall>a \<in> {0::nat, 1, 2}. post_reply timeout_world = Post_timeout \<and>
      fetch_reply timeout_world \<noteq> Fetch_failed"
    by (simp add: timeout_world_def)
  have f: "fetch_succeeds timeout_world"
    by (simp add: timeout_world_def fetch_succeeds_def)
  from timeouts_exhaust_three_attempts [of "\<lambda>a. timeout_world", OF h, of "[]" unset]
  show ?thesis
    using h f by (auto simp: unset_def)
qed

section \<open>The examples of the specification\<close>

text \<open>
  A reply that is a JSON object after two spaces: the first tier returns it, with the keys
  it has.
\<close>

lemma tier1_example:
  "parse_json_robust
     [32, 32, 123, 34, 105, 110, 118, 111, 105, 99, 101, 95, 110, 117, 109, 98, 101, 114, 34,
     58, 32, 34, 49, 50, 51, 34, 44, 32, 34, 97, 109, 111, 117, 110, 116, 34, 58, 32, 49, 48,
     48, 44, 32, 34, 118, 97, 116, 34, 58, 32, 50, 48, 125] =
   Inr (JObj [(str ''invoice_number'', JStr (str ''123'')), (str ''amount'', JInt 100),
              (str ''vat'', JInt 20)])"
  by (simp add: parse_defs re_defs text_defs json_defs)

text \<open>
  A fenced reply with a comma before the closing brace: the first tier fails on the
  candidate, the second tier repairs and decodes it.
\<close>

lemma tier2_example:
  "json_loads (extract_json_from_text
     [96, 96, 96, 106, 115, 111, 110, 10, 123, 34, 105, 110, 118, 111, 105, 99, 101, 95, 110,
     117, 109, 98, 101, 114, 34, 58, 32, 34, 88, 34, 44, 125, 10, 96, 96, 96]) = Inl JSONDecodeError \<and>
   parse_json_robust
     [96, 96, 96, 106, 115, 111, 110, 10, 123, 34, 105, 110, 118, 111, 105, 99, 101, 95, 110,
     117, 109, 98, 101, 114, 34, 58, 32, 34, 88, 34, 44, 125, 10, 96, 96, 96] =
   Inr (JObj [(str ''invoice_number'', JStr (str ''X''))])"
  by (simp add: parse_defs re_defs text_defs json_defs)

text \<open>
  A newline inside a quoted value (the supplier, three times U+041E, a newline, U+0420
  U+043E U+0433 U+0430): the candidate has a space in its place.
\<close>

lemma newline_example:
  "parse_json_robust
     [123, 34, 115, 117, 112, 112, 108, 105, 101, 114, 34, 58, 32, 34, 1054, 1054, 1054, 10,
     1056, 1086, 1075, 1072, 34, 125] =
   Inr (JObj [(str ''supplier'', JStr [1054, 1054, 1054, 32, 1056, 1086, 1075, 1072])])"
  by (simp add: parse_defs re_defs text_defs json_defs)

text \<open>
  No brace, but \<^verbatim>\<open>"amount": 500\<close>: the last tier finds the amount and leaves the rest
  unset.
\<close>

lemma salvage_example:
  "parse_json_robust
     [110, 111, 32, 98, 114, 97, 99, 101, 115, 32, 34, 97, 109, 111, 117, 110, 116, 34, 58,
     32, 53, 48, 48] =
   Inr (JObj (AList.update (str ''amount'') (JFloat 500) empty_result))"
  by (simp add: parse_defs re_defs text_defs json_defs salvage_key_def patterns_def
      quoted_pattern_def number_pattern_def nullable_pattern_def key_colon_def quoted_value_def
      empty_result_def py_float_def)

text \<open>Amount 100, vat 20, rate 20: no mismatch is reported.\<close>

lemma validate_example:
  "validate_result [(str ''amount'', JInt 100), (str ''vat'', JInt 20), (str ''vat_rate'', JInt 20)] =
   Inr ([(str ''amount'', JInt 100), (str ''vat'', JInt 20), (str ''vat_rate'', JInt 20)],
        [Missing_field (str ''invoice_number''), Missing_field (str ''date''),
         Missing_field (str ''supplier''), Missing_field (str ''buyer'')])"
  by (simp add: validate_defs)

text \<open>The empty reply: every key unset.\<close>

lemma parse_json_robust_empty: "parse_json_robust [] = Inr (JObj empty_result)"
  by (simp add: parse_defs re_defs text_defs json_defs patterns_def salvage_key_def
      quoted_pattern_def number_pattern_def nullable_pattern_def key_colon_def quoted_value_def)

end
